theory Spec2Isabelle
  imports Complex_Main "HOL-Library.Sublist"
begin

section \<open>Data model\<close>

text \<open>
  A configuration is a point of the c-space: a numpy vector of coordinates.
  Distances and costs are Python floats, modelled as reals.
\<close>

type_synonym config = "real list"

text \<open>The Python exceptions the planner can raise.\<close>

datatype error = KeyError | IndexError | UnboundLocalError | TypeError

text \<open>
  The environment is an external collaborator of the planner; the planner only calls
  its methods. The sampler of the environment and \<^verbatim>\<open>np.random.uniform\<close> draw from
  the global numpy generator, whose state has the abstract type \<open>'r\<close> and is threaded
  explicitly; \<^verbatim>\<open>np.random.seed\<close> gives the state that a seed puts the generator in.
\<close>

record 'r environment =
  compute_distance :: "config \<Rightarrow> config \<Rightarrow> real"
  edge_validity_checker :: "config \<Rightarrow> config \<Rightarrow> bool"
  goal_criterion :: "config \<Rightarrow> bool"
  env_sample :: "'r \<Rightarrow> config \<times> 'r"
  c_space_dim :: int
  np_random_uniform :: "'r \<Rightarrow> real \<times> 'r"
  np_random_seed :: "int \<Rightarrow> 'r"

subsection \<open>The spatial tree\<close>

text \<open>
  Modelled from the spec: the class \<^verbatim>\<open>RRTTree\<close> (module \<^verbatim>\<open>RRTTree\<close>) is imported by the
  planner but its source is not part of the sources at hand. The tree holds the vertices
  (id to configuration, ids assigned sequentially from 0), the parent edges (child id
  to parent id) and the two result attributes that \<^verbatim>\<open>Plan\<close> assigns.
\<close>

record rrt_tree =
  vertices :: "config list"
  edges :: "nat \<rightharpoonup> nat"
  time_cost :: "real option"
  path_cost :: "real option"

text \<open>
  Modelled from the spec: the constructor of \<^verbatim>\<open>RRTTree\<close>; a new tree has no vertex and
  no edge.
\<close>

definition RRTTree :: rrt_tree where
  "RRTTree = \<lparr>vertices = [], edges = Map.empty, time_cost = None, path_cost = None\<rparr>"

text \<open>
  Modelled from the spec: \<^verbatim>\<open>AddVertex(config, cost)\<close> appends a new vertex and returns
  its newly assigned id; it grows the vertex storage by one entry. The cost argument
  (\<open>None\<close> when the caller leaves it out) is not stored.
\<close>

definition AddVertex :: "rrt_tree \<Rightarrow> config \<Rightarrow> real option \<Rightarrow> rrt_tree \<times> nat" where
  "AddVertex t config cost = (t\<lparr>vertices := vertices t @ [config]\<rparr>, length (vertices t))"

text \<open>
  Modelled from the spec: \<^verbatim>\<open>AddEdge(parent_id, child_id)\<close> sets or overwrites the parent
  of \<open>child_id\<close>; no cycle detection.
\<close>

definition AddEdge :: "rrt_tree \<Rightarrow> nat \<Rightarrow> nat \<Rightarrow> rrt_tree" where
  "AddEdge t parent_id child_id = t\<lparr>edges := (edges t)(child_id \<mapsto> parent_id)\<rparr>"

text \<open>
  Modelled from the spec: \<^verbatim>\<open>GetRootID()\<close> returns the id assigned to the first inserted
  vertex.
\<close>

definition GetRootID :: "rrt_tree \<Rightarrow> nat" where
  "GetRootID t = 0"

text \<open>
  Modelled from the spec: \<^verbatim>\<open>GetNearestVertex(query)\<close> scans the vertices in id order
  and returns the id and distance of the vertex minimizing the distance to the query;
  on ties the first one found (the lowest id) wins. \<open>nearest_scan\<close> is the scan with
  the best candidate so far.
\<close>

fun nearest_scan ::
  "(config \<Rightarrow> config \<Rightarrow> real) \<Rightarrow> config \<Rightarrow> (nat \<times> config) list \<Rightarrow> nat \<times> real \<Rightarrow> nat \<times> real"
where
  "nearest_scan d q [] best = best"
| "nearest_scan d q ((i, v) # rest) (bi, bd) =
     (if d q v < bd then nearest_scan d q rest (i, d q v) else nearest_scan d q rest (bi, bd))"

definition enumerate :: "config list \<Rightarrow> (nat \<times> config) list" where
  "enumerate vs = zip [0..<length vs] vs"

definition GetNearestVertex :: "'r environment \<Rightarrow> rrt_tree \<Rightarrow> config \<Rightarrow> nat \<times> real" where
  "GetNearestVertex e t q =
     (case vertices t of
        [] \<Rightarrow> (0, 0)
      | v # vs \<Rightarrow> nearest_scan (compute_distance e) q (tl (enumerate (v # vs)))
                  (0, compute_distance e q v))"

text \<open>
  Modelled from the spec: \<^verbatim>\<open>GetNNInRad(query, radius)\<close> returns all vertices with
  distance at most the radius from the query, in id order, as paired ids and
  configurations.
\<close>

definition GetNNInRad :: "'r environment \<Rightarrow> rrt_tree \<Rightarrow> config \<Rightarrow> real \<Rightarrow> (nat \<times> config) list" where
  "GetNNInRad e t q rad =
     filter (\<lambda>(i, v). compute_distance e q v \<le> rad) (enumerate (vertices t))"

section \<open>The planner\<close>

text \<open>The fields that \<^verbatim>\<open>__init__\<close> sets on the planner object.\<close>

record 'r planner =
  env :: "'r environment"
  tree :: rrt_tree
  bias :: real
  max_iter :: nat
  eta :: real

text \<open>
  Modelled from the spec: the call of the constructor of \<^verbatim>\<open>RRTTree\<close>, whose source is not
  at hand. The planner passes it the argument \<^verbatim>\<open>rand_seed\<close>, which the spec gives "for
  reproducible sampling" from the seeded global random state: the call seeds the global
  generator, whatever its state was before, and gives the empty tree.
\<close>

definition RRTTree_init :: "'r environment \<Rightarrow> int \<Rightarrow> 'r \<Rightarrow> rrt_tree \<times> 'r" where
  "RRTTree_init planning_env rand_seed g = (RRTTree, np_random_seed planning_env rand_seed)"

text \<open>
  \<^verbatim>\<open>__init__\<close>: stores the environment and the parameters and creates the tree, passing
  the seed on to it. It performs no check of its arguments. The result is the planner
  and the state of the global generator after the construction.
\<close>

definition init ::
  "'r environment \<Rightarrow> int \<Rightarrow> real \<Rightarrow> real \<Rightarrow> nat \<Rightarrow> 'r \<Rightarrow> 'r planner \<times> 'r"
where
  "init planning_env rand_seed bias_arg eta_arg max_iter_arg g =
     (case RRTTree_init planning_env rand_seed g of
        (t, g') \<Rightarrow>
          (\<lparr>env = planning_env, tree = t, bias = bias_arg, max_iter = max_iter_arg,
            eta = eta_arg\<rparr>, g'))"

subsection \<open>Cost to the root\<close>

text \<open>
  The loop of \<^verbatim>\<open>compute_cost\<close>: while the current id is not the root id, look the parent
  up in the edge dictionary (a missing key raises), read the parent's configuration
  (an id beyond the vertex list raises), add the distance and move up. The loop has no
  bound: when it does not return, the value is \<open>None\<close>.
\<close>

partial_function (option) cost_walk ::
  "'r planner \<Rightarrow> nat \<Rightarrow> nat \<Rightarrow> config \<Rightarrow> real \<Rightarrow> (error + real) option"
where
  "cost_walk P root_id node_id node cost =
     (if node_id \<noteq> root_id then
        (case edges (tree P) node_id of
           None \<Rightarrow> Some (Inl KeyError)
         | Some parent_id \<Rightarrow>
             if parent_id < length (vertices (tree P)) then
               cost_walk P root_id parent_id (vertices (tree P) ! parent_id)
                 (cost + compute_distance (env P) node (vertices (tree P) ! parent_id))
             else Some (Inl IndexError))
      else Some (Inr cost))"

definition compute_cost :: "'r planner \<Rightarrow> nat \<Rightarrow> (error + real) option" where
  "compute_cost P node_id =
     (let root_id = GetRootID (tree P) in
      if node_id < length (vertices (tree P)) then
        cost_walk P root_id node_id (vertices (tree P) ! node_id) 0
      else Some (Inl IndexError))"

subsection \<open>Sampling\<close>

text \<open>
  \<^verbatim>\<open>sample\<close>: with a uniform draw below the bias the goal itself, otherwise a
  configuration from the sampler of the environment.
\<close>

definition sample :: "'r planner \<Rightarrow> config \<Rightarrow> 'r \<Rightarrow> config \<times> 'r" where
  "sample P goal g =
     (case np_random_uniform (env P) g of
        (u, g') \<Rightarrow> if u < bias P then (goal, g') else env_sample (env P) g')"

text \<open>
  The inner loop of \<^verbatim>\<open>Plan\<close>: draw a target, find the nearest vertex, and repeat until
  the edge between the target and the nearest vertex is valid. The loop has no bound.
\<close>

partial_function (option) sample_valid_edge ::
  "'r planner \<Rightarrow> config \<Rightarrow> 'r \<Rightarrow> ((error + config \<times> nat \<times> config) \<times> 'r) option"
where
  "sample_valid_edge P goal_config g =
     (case sample P goal_config g of
        (x_rand, g') \<Rightarrow>
          (case GetNearestVertex (env P) (tree P) x_rand of
             (x_nearest_id, x_nearest_dist) \<Rightarrow>
               if x_nearest_id < length (vertices (tree P)) then
                 if edge_validity_checker (env P) x_rand (vertices (tree P) ! x_nearest_id)
                 then Some (Inr (x_rand, x_nearest_id, vertices (tree P) ! x_nearest_id), g')
                 else sample_valid_edge P goal_config g'
               else Some (Inl IndexError, g')))"

subsection \<open>Extension\<close>

text \<open>\<^verbatim>\<open>math.atan2(y, x)\<close>, the angle of the point \<open>(x, y)\<close> in \<open>(-pi, pi]\<close>.\<close>

definition atan2 :: "real \<Rightarrow> real \<Rightarrow> real" where
  "atan2 y x =
     (if 0 < x then arctan (y / x)
      else if x < 0 \<and> 0 \<le> y then arctan (y / x) + pi
      else if x < 0 \<and> y < 0 then arctan (y / x) - pi
      else if 0 < y then pi / 2
      else if y < 0 then - (pi / 2)
      else 0)"

text \<open>\<^verbatim>\<open>np.round\<close> followed by \<^verbatim>\<open>astype(int)\<close>: the nearest integer, a tie going to the even one.\<close>

definition np_round :: "real \<Rightarrow> real" where
  "np_round x =
     (let f = \<lfloor>x\<rfloor>; r = x - of_int f
      in of_int (if r < 1 / 2 then f else if 1 / 2 < r then f + 1
                 else if even f then f else f + 1))"

text \<open>
  The list \<^verbatim>\<open>x_new\<close> that \<^verbatim>\<open>extend\<close> builds before it rounds. Reading a coordinate that
  a configuration does not have raises; in a dimension other than 2 and 3 no branch
  assigns \<^verbatim>\<open>x_new\<close>, and the use of the unbound local variable raises.
\<close>

definition extend_raw :: "'r planner \<Rightarrow> config \<Rightarrow> config \<Rightarrow> error + config" where
  "extend_raw P x_nearest x_rand =
     (let dist = compute_distance (env P) x_nearest x_rand * eta P in
      if c_space_dim (env P) = 2 then
        (if length x_rand < 2 \<or> length x_nearest < 2 then Inl IndexError
         else
           let alpha = atan2 (x_rand ! 1 - x_nearest ! 1) (x_rand ! 0 - x_nearest ! 0)
           in Inr [x_nearest ! 0 + dist * cos alpha,
                   x_nearest ! 1 + dist * sin alpha])
      else if c_space_dim (env P) = 3 then
        (if length x_rand < 3 \<or> length x_nearest < 3 then Inl IndexError
         else
           let alpha = atan2 (x_rand ! 2 - x_nearest ! 2)
                         (compute_distance (env P) (take 2 x_rand) (take 2 x_nearest));
               beta = atan2 (x_rand ! 1 - x_nearest ! 1) (x_rand ! 0 - x_nearest ! 0)
           in Inr [x_nearest ! 0 + dist * cos alpha * cos beta,
                   x_nearest ! 1 + dist * cos alpha * sin beta,
                   x_nearest ! 2 + dist * sin alpha])
      else Inl UnboundLocalError)"

definition extend :: "'r planner \<Rightarrow> config \<Rightarrow> config \<Rightarrow> error + config" where
  "extend P x_nearest x_rand =
     (case extend_raw P x_nearest x_rand of
        Inl e \<Rightarrow> Inl e
      | Inr x_new \<Rightarrow> Inr (map np_round x_new))"

subsection \<open>Parent selection and rewiring\<close>

text \<open>
  The first loop over the radius neighbours: a neighbour replaces the candidate parent
  when the edge from the new configuration to it is valid and its cost to the root plus
  its distance to the new configuration is strictly below the best cost so far. The
  source calls \<^verbatim>\<open>compute_cost\<close> on the neighbour a second time for the new best cost;
  the tree has not changed in between, so the value \<open>c\<close> is the same.
\<close>

fun select_parent ::
  "'r planner \<Rightarrow> config \<Rightarrow> (nat \<times> config) list \<Rightarrow> nat \<times> config \<times> real \<Rightarrow>
   (error + nat \<times> config \<times> real) option"
where
  "select_parent P x_new [] best = Some (Inr best)"
| "select_parent P x_new ((x_near_id, x_near) # rest) (x_min_id, x_min, cost_min) =
     (if edge_validity_checker (env P) x_new x_near then
        (case compute_cost P x_near_id of
           None \<Rightarrow> None
         | Some (Inl e) \<Rightarrow> Some (Inl e)
         | Some (Inr c) \<Rightarrow>
             if c + compute_distance (env P) x_near x_new < cost_min
             then select_parent P x_new rest
                    (x_near_id, x_near, c + compute_distance (env P) x_near x_new)
             else select_parent P x_new rest (x_min_id, x_min, cost_min))
      else select_parent P x_new rest (x_min_id, x_min, cost_min))"

text \<open>
  The second loop over the radius neighbours: a neighbour gets the new vertex (the id
  \<open>branch_id\<close>) as its parent when the edge is valid and the cost of the new vertex plus
  the distance is strictly below the neighbour's current cost.
\<close>

fun rewire ::
  "'r planner \<Rightarrow> config \<Rightarrow> nat \<Rightarrow> (nat \<times> config) list \<Rightarrow> ((error + unit) \<times> 'r planner) option"
where
  "rewire P x_new branch_id [] = Some (Inr (), P)"
| "rewire P x_new branch_id ((x_near_id, x_near) # rest) =
     (if edge_validity_checker (env P) x_new x_near then
        (case compute_cost P branch_id of
           None \<Rightarrow> None
         | Some (Inl e) \<Rightarrow> Some (Inl e, P)
         | Some (Inr c_new) \<Rightarrow>
             (case compute_cost P x_near_id of
                None \<Rightarrow> None
              | Some (Inl e) \<Rightarrow> Some (Inl e, P)
              | Some (Inr c_near) \<Rightarrow>
                  if c_new + compute_distance (env P) x_near x_new < c_near
                  then rewire (P\<lparr>tree := AddEdge (tree P) branch_id x_near_id\<rparr>)
                         x_new branch_id rest
                  else rewire P x_new branch_id rest))
      else rewire P x_new branch_id rest)"

subsection \<open>One iteration of the main loop\<close>

definition iteration ::
  "'r planner \<Rightarrow> config \<Rightarrow> real \<Rightarrow> nat \<Rightarrow> 'r \<Rightarrow> ((error + unit) \<times> 'r planner \<times> 'r) option"
where
  "iteration P goal_config rad branch_id g =
     (case sample_valid_edge P goal_config g of
        None \<Rightarrow> None
      | Some (Inl e, g') \<Rightarrow> Some (Inl e, P, g')
      | Some (Inr (x_rand, x_nearest_id, x_nearest), g') \<Rightarrow>
          (case extend P x_nearest x_rand of
             Inl e \<Rightarrow> Some (Inl e, P, g')
           | Inr x_new \<Rightarrow>
               (case compute_cost P x_nearest_id of
                  None \<Rightarrow> None
                | Some (Inl e) \<Rightarrow> Some (Inl e, P, g')
                | Some (Inr c) \<Rightarrow>
                    (case select_parent P x_new (GetNNInRad (env P) (tree P) x_new rad)
                            (x_nearest_id, x_nearest,
                             c + compute_distance (env P) x_nearest x_new) of
                       None \<Rightarrow> None
                     | Some (Inl e) \<Rightarrow> Some (Inl e, P, g')
                     | Some (Inr (x_min_id, x_min, cost_min)) \<Rightarrow>
                         (case rewire
                                 (P\<lparr>tree :=
                                      AddEdge
                                        (fst (AddVertex (tree P) x_new
                                           (Some (compute_distance (env P) x_min x_new))))
                                        x_min_id branch_id\<rparr>)
                                 x_new branch_id (GetNNInRad (env P) (tree P) x_new rad) of
                            None \<Rightarrow> None
                          | Some (r, P') \<Rightarrow> Some (r, P', g'))))))"

text \<open>
  The main loop over the branch ids. The result \<open>True\<close> stands for \<^verbatim>\<open>path = []\<close> set
  by the periodic goal check before \<^verbatim>\<open>break\<close>, \<open>False\<close> for \<^verbatim>\<open>path\<close> still \<^verbatim>\<open>None\<close>.
\<close>

fun grow ::
  "'r planner \<Rightarrow> config \<Rightarrow> real \<Rightarrow> nat list \<Rightarrow> 'r \<Rightarrow> ((error + bool) \<times> 'r planner \<times> 'r) option"
where
  "grow P goal_config rad [] g = Some (Inr False, P, g)"
| "grow P goal_config rad (branch_id # rest) g =
     (case iteration P goal_config rad branch_id g of
        None \<Rightarrow> None
      | Some (Inl e, P', g') \<Rightarrow> Some (Inl e, P', g')
      | Some (Inr u, P', g') \<Rightarrow>
          if branch_id mod 600 = 0 then
            (case GetNearestVertex (env P') (tree P') goal_config of
               (vertex_id, vertex_dist) \<Rightarrow>
                 if vertex_id < length (vertices (tree P')) then
                   if goal_criterion (env P') (vertices (tree P') ! vertex_id)
                   then Some (Inr True, P', g')
                   else grow P' goal_config rad rest g'
                 else Some (Inl IndexError, P', g'))
          else grow P' goal_config rad rest g')"

subsection \<open>Path extraction and the planning run\<close>

text \<open>
  The loop that collects the path: from the vertex nearest to the goal, follow the
  parent edges until the current configuration equals the start configuration.
\<close>

partial_function (option) path_walk ::
  "'r planner \<Rightarrow> config \<Rightarrow> nat \<Rightarrow> config \<Rightarrow> config list \<Rightarrow> (error + config list) option"
where
  "path_walk P start_config vertex_id vertex path =
     (if vertex \<noteq> start_config then
        (case edges (tree P) vertex_id of
           None \<Rightarrow> Some (Inl KeyError)
         | Some parent_id \<Rightarrow>
             if parent_id < length (vertices (tree P)) then
               path_walk P start_config parent_id (vertices (tree P) ! parent_id)
                 (path @ [vertex])
             else Some (Inl IndexError))
      else Some (Inr (path @ [vertex])))"

text \<open>The distances between consecutive elements of the path, in path order.\<close>

definition segment_costs :: "'r environment \<Rightarrow> config list \<Rightarrow> real list" where
  "segment_costs e path =
     map (\<lambda>i. compute_distance e (path ! i) (path ! (i + 1))) [0..<length path - 1]"

text \<open>Python's \<^verbatim>\<open>sum\<close>: from 0, left to right.\<close>

definition py_sum :: "real list \<Rightarrow> real" where
  "py_sum xs = foldl (+) 0 xs"

text \<open>\<^verbatim>\<open>round(x, 4)\<close>: to four decimal places.\<close>

definition round4 :: "real \<Rightarrow> real" where
  "round4 x = np_round (x * 10000) / 10000"

text \<open>
  \<^verbatim>\<open>Plan\<close>. The two readings of the clock are arguments. The result is the returned
  path or the exception raised, together with the planner and the generator state
  at that moment. When \<^verbatim>\<open>path\<close> is still \<^verbatim>\<open>None\<close> after the final goal check,
  \<^verbatim>\<open>len(path)\<close> raises.
\<close>

definition Plan ::
  "'r planner \<Rightarrow> real \<Rightarrow> real \<Rightarrow> config \<Rightarrow> config \<Rightarrow> real \<Rightarrow> 'r \<Rightarrow>
   ((error + config list) \<times> 'r planner \<times> 'r) option"
where
  "Plan P start_time end_time start_config goal_config rad g =
     (case grow (P\<lparr>tree := fst (AddVertex (tree P) start_config None)\<rparr>) goal_config rad
             [1..<max_iter P + 1] g of
        None \<Rightarrow> None
      | Some (Inl e, P', g') \<Rightarrow> Some (Inl e, P', g')
      | Some (Inr found, P', g') \<Rightarrow>
          (case GetNearestVertex (env P') (tree P') goal_config of
             (vertex_id, vertex_dist) \<Rightarrow>
               if vertex_id < length (vertices (tree P')) then
                 if found \<or> goal_criterion (env P') (vertices (tree P') ! vertex_id) then
                   (case path_walk P' start_config vertex_id
                           (vertices (tree P') ! vertex_id) [] of
                      None \<Rightarrow> None
                    | Some (Inl e) \<Rightarrow> Some (Inl e, P', g')
                    | Some (Inr walked) \<Rightarrow>
                        Some (Inr (rev walked),
                              P'\<lparr>tree := (tree P')
                                    \<lparr>time_cost := Some (end_time - start_time),
                                     path_cost :=
                                       Some (round4 (py_sum
                                         (segment_costs (env P') (rev walked))))\<rparr>\<rparr>,
                              g'))
                 else Some (Inl TypeError, P', g')
               else Some (Inl IndexError, P', g')))"

section \<open>Notions used in the properties\<close>

text \<open>
  The ids met by walking the parent edges from \<open>v\<close> up to the root, the root included,
  when the root is reached within \<open>k\<close> steps through ids of the vertex list.
\<close>

fun root_path :: "rrt_tree \<Rightarrow> nat \<Rightarrow> nat \<Rightarrow> nat list option" where
  "root_path t 0 v = (if v = GetRootID t then Some [v] else None)"
| "root_path t (Suc k) v =
     (if v = GetRootID t then Some [v]
      else (case edges t v of
              None \<Rightarrow> None
            | Some p \<Rightarrow>
                if p < length (vertices t) then map_option (Cons v) (root_path t k p)
                else None))"

text \<open>The sum of the distances from each vertex of a chain of ids to the next one.\<close>

fun chain_cost :: "(config \<Rightarrow> config \<Rightarrow> real) \<Rightarrow> config list \<Rightarrow> nat list \<Rightarrow> real" where
  "chain_cost d vs (a # b # rest) = d (vs ! a) (vs ! b) + chain_cost d vs (b # rest)"
| "chain_cost d vs ids = 0"


text \<open>
  The planner \<open>P'\<close> differs from \<open>P\<close> in its tree only, the vertex list of \<open>P\<close> is an
  initial part of that of \<open>P'\<close>, and every child that has a parent in \<open>P\<close> has one in
  \<open>P'\<close>.
\<close>

definition grows_from :: "'r planner \<Rightarrow> 'r planner \<Rightarrow> bool" where
  "grows_from P P' \<longleftrightarrow>
     P' = P\<lparr>tree := tree P'\<rparr> \<and> prefix (vertices (tree P)) (vertices (tree P')) \<and>
     dom (edges (tree P)) \<subseteq> dom (edges (tree P'))"

text \<open>In a chain of ids, each id has the next one as its parent.\<close>

fun parent_chain :: "rrt_tree \<Rightarrow> nat list \<Rightarrow> bool" where
  "parent_chain t (a # b # rest) = (edges t a = Some b \<and> parent_chain t (b # rest))"
| "parent_chain t ids = True"

text \<open>
  The parent edges form a tree rooted at the root id: there is a vertex, the root has
  no parent, only ids of vertices have a parent, and from every vertex the walk along
  the parent edges reaches the root, within as many steps as there are vertices.
\<close>

definition is_tree :: "rrt_tree \<Rightarrow> bool" where
  "is_tree t \<longleftrightarrow>
     vertices t \<noteq> [] \<and> edges t (GetRootID t) = None \<and>
     dom (edges t) \<subseteq> {..<length (vertices t)} \<and>
     list_all (\<lambda>v. root_path t (length (vertices t)) v \<noteq> None) [0..<length (vertices t)]"

text \<open>The ancestor \<open>k\<close> parent edges above a vertex, when there is one.\<close>

fun ancestor :: "rrt_tree \<Rightarrow> nat \<Rightarrow> nat \<Rightarrow> nat option" where
  "ancestor t 0 v = Some v"
| "ancestor t (Suc k) v = (case edges t v of None \<Rightarrow> None | Some p \<Rightarrow> ancestor t k p)"

text \<open>No vertex is its own ancestor.\<close>

definition no_self_ancestor :: "rrt_tree \<Rightarrow> bool" where
  "no_self_ancestor t \<longleftrightarrow> (\<forall>v k. 0 < k \<longrightarrow> ancestor t k v \<noteq> Some v)"

subsection \<open>Example environments and planners\<close>

text \<open>The Euclidean distance, the metric of the reference environment.\<close>

definition euclidean :: "config \<Rightarrow> config \<Rightarrow> real" where
  "euclidean a b = sqrt (sum_list (map (\<lambda>(x, y). (x - y)\<^sup>2) (zip a b)))"

text \<open>
  An obstacle-free environment of dimension \<open>n\<close> whose goal region is the single
  configuration \<open>goal\<close>. The generator state is a counter, which seeding sets to 0;
  every uniform draw is 0 and the sampler always returns the origin.
\<close>

definition free_env :: "int \<Rightarrow> config \<Rightarrow> nat environment" where
  "free_env n goal =
     \<lparr>compute_distance = euclidean,
      edge_validity_checker = (\<lambda>a b. True),
      goal_criterion = (\<lambda>c. c = goal),
      env_sample = (\<lambda>g. ([0, 0], Suc g)),
      c_space_dim = n,
      np_random_uniform = (\<lambda>g. (0, Suc g)),
      np_random_seed = (\<lambda>seed. 0)\<rparr>"

text \<open>A planner whose parent edges have been corrupted into the cycle 1, 2, 1.\<close>

definition cyclic_planner :: "nat planner" where
  "cyclic_planner =
     \<lparr>env = free_env 2 [4, 0],
      tree = \<lparr>vertices = [ [0, 0], [1, 0], [1, 1] ], edges = [1 \<mapsto> 2, 2 \<mapsto> 1],
              time_cost = None, path_cost = None\<rparr>,
      bias = 1, max_iter = 1, eta = 1\<rparr>"

text \<open>A planner with the chain of parent edges 2, 1, 0.\<close>

definition chain_planner :: "nat planner" where
  "chain_planner =
     \<lparr>env = free_env 2 [4, 0],
      tree = \<lparr>vertices = [ [0, 0], [1, 0], [3, 0] ], edges = [1 \<mapsto> 0, 2 \<mapsto> 1],
              time_cost = None, path_cost = None\<rparr>,
      bias = 1, max_iter = 1, eta = 1\<rparr>"

text \<open>
  Planners as constructed by \<^verbatim>\<open>__init__\<close> with the seed 0 over the obstacle-free
  environment with the goal \<open>(4, 0)\<close>, with bias 1 (every target is the goal) and one
  iteration: in two
  dimensions with the step scales 1 and 1/2, and in four dimensions.
\<close>

definition full_step_planner :: "nat planner" where
  "full_step_planner = fst (init (free_env 2 [4, 0]) 0 1 1 1 0)"

definition half_step_planner :: "nat planner" where
  "half_step_planner = fst (init (free_env 2 [4, 0]) 0 1 (1 / 2) 1 0)"

definition planner_4d :: "nat planner" where
  "planner_4d = fst (init (free_env 4 [4, 0, 0, 0]) 0 1 1 1 0)"


text \<open>
  The planner \<open>full_step_planner\<close> after a first call of \<open>Plan\<close> from \<open>(0, 0)\<close> to
  \<open>(4, 0)\<close> with the clock readings 0 and 1, and after a second such call with the clock
  readings 1 and 2.
\<close>

definition after_first_run :: "nat planner" where
  "after_first_run =
     \<lparr>env = free_env 2 [4, 0],
      tree = \<lparr>vertices = [ [0, 0], [4, 0] ], edges = [1 \<mapsto> 0], time_cost = Some 1,
              path_cost = Some 4\<rparr>,
      bias = 1, max_iter = 1, eta = 1\<rparr>"

definition after_second_run :: "nat planner" where
  "after_second_run =
     \<lparr>env = free_env 2 [4, 0],
      tree = \<lparr>vertices = [ [0, 0], [4, 0], [0, 0] ], edges = [1 \<mapsto> 0], time_cost = Some 1,
              path_cost = Some 4\<rparr>,
      bias = 1, max_iter = 1, eta = 1\<rparr>"



text \<open>
  The planner \<open>full_step_planner\<close> after a call of \<open>Plan\<close> from \<open>(0.00001, 0)\<close> to
  \<open>(4, 0)\<close> with the clock readings 0 and 1.
\<close>

definition after_offset_run :: "nat planner" where
  "after_offset_run =
     \<lparr>env = free_env 2 [4, 0],
      tree = \<lparr>vertices = [ [1 / 100000, 0], [4, 0] ], edges = [1 \<mapsto> 0], time_cost = Some 1,
              path_cost = Some 4\<rparr>,
      bias = 1, max_iter = 1, eta = 1\<rparr>"











text \<open>The planner \<open>full_step_planner\<close> after the first iteration of a run from \<open>(0, 0)\<close>.\<close>

definition first_iteration_planner :: "nat planner" where
  "first_iteration_planner =
     full_step_planner
       \<lparr>tree := \<lparr>vertices = [ [0, 0], [4, 0] ], edges = [1 \<mapsto> 0], time_cost = None,
                 path_cost = None\<rparr>\<rparr>"

text \<open>
  The planner \<open>after_first_run\<close> at the beginning of a second call of \<open>Plan\<close>, from
  \<open>(100, 0)\<close>: the new start configuration has been appended to the tree of the first
  call.
\<close>

definition reused_planner :: "nat planner" where
  "reused_planner =
     after_first_run\<lparr>tree := fst (AddVertex (tree after_first_run) [100, 0] None)\<rparr>"

section \<open>Properties\<close>

subsection \<open>Cost to the root\<close>

lemma euclidean_axis [simp]: "euclidean [a, b] [c, b] = \<bar>a - c\<bar>"
  by (simp add: euclidean_def)

lemma root_path_hd:
  "root_path t k v = Some ids \<Longrightarrow> \<exists>rest. ids = v # rest"
  by (cases k) (auto split: if_splits option.splits)

lemma cost_walk_root_path:
  "root_path (tree P) k v = Some ids \<Longrightarrow>
   cost_walk P (GetRootID (tree P)) v (vertices (tree P) ! v) c =
     Some (Inr (c + chain_cost (compute_distance (env P)) (vertices (tree P)) ids))"
proof (induction k arbitrary: v ids c)
  case 0
  then show ?case by (subst cost_walk.simps) (auto split: if_splits)
next
  case (Suc k)
  show ?case
  proof (cases "v = GetRootID (tree P)")
    case True
    with Suc.prems show ?thesis by (subst cost_walk.simps) auto
  next
    case False
    with Suc.prems obtain p rest where p: "edges (tree P) v = Some p"
      "p < length (vertices (tree P))" "root_path (tree P) k p = Some rest" "ids = v # rest"
      by (auto split: option.splits if_splits)
    from root_path_hd[OF p(3)] obtain rest' where r: "rest = p # rest'" by blast
    show ?thesis using False p r Suc.IH[OF p(3)]
      by (subst cost_walk.simps) (simp add: add.assoc)
  qed
qed

text \<open>
  A set of ids without the root in which every id has a parent in the set: the walk
  from any of them never ends.
\<close>

lemma cost_walk_closed_set:
  assumes closed: "\<forall>u\<in>S. u \<noteq> r \<and>
      (\<exists>p\<in>S. edges (tree P) u = Some p \<and> p < length (vertices (tree P)))"
    and v: "v \<in> S"
  shows "cost_walk P r v node c = None"
proof (cases "cost_walk P r v node c")
  case None
  then show ?thesis .
next
  case (Some y)
  have "cost_walk P' r' v' node' c' = Some y' \<Longrightarrow>
     (\<lambda>x y. fst (fst (fst (fst x))) = P \<and> snd (fst (fst (fst x))) = r \<and>
            snd (fst (fst x)) \<in> S \<longrightarrow> False)
       ((((P', r'), v'), node'), c') y'" for P' r' v' node' c' y'
    apply (erule cost_walk.raw_induct[rotated])
    apply clarsimp
    subgoal premises prems for f v2 node2 c2 y2
    proof -
      from closed prems(3) obtain p where p: "v2 \<noteq> r" "p \<in> S" "edges (tree P) v2 = Some p"
        "p < length (vertices (tree P))" by blast
      with prems(2) have "f P r p (vertices (tree P) ! p)
        (c2 + compute_distance (env P) node2 (vertices (tree P) ! p)) = Some y2" by simp
      from prems(1)[OF this] p(2) show False by simp
    qed
    done
  from this[OF Some] v show ?thesis by simp
qed

text \<open>
  Claim C3, as amended. \<open>compute_cost\<close> walks the parent edges from the vertex towards
  the root and adds up the distances of the environment: when the walk reaches the
  root, the result is the sum of the distances along the chain of ids. There is no
  bound on the number of steps and no cycle error: from a vertex in a set of ids that
  is closed under taking the parent and does not hold the root, the walk never
  returns.
\<close>

theorem compute_cost_walk:
  assumes "v < length (vertices (tree P))"
  shows "(\<forall>k ids. root_path (tree P) k v = Some ids \<longrightarrow>
            compute_cost P v =
              Some (Inr (chain_cost (compute_distance (env P)) (vertices (tree P)) ids)))
       \<and> (\<forall>S. v \<in> S \<and> (\<forall>u\<in>S. u \<noteq> GetRootID (tree P) \<and>
                 (\<exists>p\<in>S. edges (tree P) u = Some p \<and> p < length (vertices (tree P))))
            \<longrightarrow> compute_cost P v = None)"
proof (intro conjI allI impI)
  fix k ids
  assume "root_path (tree P) k v = Some ids"
  from cost_walk_root_path[OF this, of 0] assms
  show "compute_cost P v =
          Some (Inr (chain_cost (compute_distance (env P)) (vertices (tree P)) ids))"
    by (simp add: compute_cost_def)
next
  fix S
  assume S: "v \<in> S \<and> (\<forall>u\<in>S. u \<noteq> GetRootID (tree P) \<and>
                 (\<exists>p\<in>S. edges (tree P) u = Some p \<and> p < length (vertices (tree P))))"
  then have "cost_walk P (GetRootID (tree P)) v (vertices (tree P) ! v) 0 = None"
    by (intro cost_walk_closed_set[where S = S]) auto
  with assms show "compute_cost P v = None"
    by (simp add: compute_cost_def)
qed

theorem compute_cost_walk_witness:
  "compute_cost chain_planner 2 = Some (Inr 3) \<and> compute_cost cyclic_planner 2 = None"
proof
  have rp: "root_path (tree chain_planner) 2 2 = Some [2, 1, 0]"
    by (simp add: chain_planner_def GetRootID_def numeral_2_eq_2)
  have lt: "(2::nat) < length (vertices (tree chain_planner))"
    by (simp add: chain_planner_def)
  from compute_cost_walk[OF lt, THEN conjunct1, rule_format, OF rp]
  show "compute_cost chain_planner 2 = Some (Inr 3)"
    by (simp add: chain_planner_def free_env_def)
next
  have lt: "(2::nat) < length (vertices (tree cyclic_planner))"
    by (simp add: cyclic_planner_def)
  have cl: "(2::nat) \<in> {1, 2} \<and> (\<forall>u\<in>{1, 2::nat}. u \<noteq> GetRootID (tree cyclic_planner) \<and>
      (\<exists>p\<in>{1, 2}. edges (tree cyclic_planner) u = Some p \<and>
          p < length (vertices (tree cyclic_planner))))"
    by (simp add: cyclic_planner_def GetRootID_def)
  from compute_cost_walk[OF lt, THEN conjunct2, rule_format, OF cl]
  show "compute_cost cyclic_planner 2 = None" .
qed

text \<open>
  Claim C3 as stated fails: on the cyclic parent edges 1, 2, 1 the call for vertex 1
  neither returns a cost nor raises.
\<close>

theorem compute_cost_cycle_counterexample:
  "compute_cost cyclic_planner 1 = None"
proof -
  have "cost_walk cyclic_planner 0 1 node c = None" for node c
    by (rule cost_walk_closed_set[where S = "{1, 2}"]) (simp_all add: cyclic_planner_def)
  then show ?thesis
    by (simp add: compute_cost_def GetRootID_def cyclic_planner_def)
qed

subsection \<open>Evaluation on concrete inputs\<close>

lemma atan2_axis [simp]: "0 < x \<Longrightarrow> atan2 0 x = 0"
  by (simp add: atan2_def)

lemma np_round_of_int [simp]: "np_round (of_int k) = of_int k"
  by (simp add: np_round_def)

lemma np_round_numeral [simp]:
  "np_round (numeral k) = numeral k" "np_round 0 = 0" "np_round 1 = 1"
  using np_round_of_int[of "numeral k"] np_round_of_int[of 0] np_round_of_int[of 1]
  by simp_all

lemmas model_defs =
  Plan_def iteration_def init_def RRTTree_init_def RRTTree_def AddVertex_def AddEdge_def free_env_def
  sample_def GetNearestVertex_def enumerate_def extend_def extend_raw_def GetNNInRad_def
  compute_cost_def GetRootID_def cost_walk.simps sample_valid_edge.simps path_walk.simps
  upt_rec segment_costs_def py_sum_def round4_def

subsection \<open>The nearest vertex and the sampling loop\<close>

lemma nearest_scan_lt:
  "\<forall>p\<in>set xs. fst p < n \<Longrightarrow> fst best < n \<Longrightarrow> fst (nearest_scan d q xs best) < n"
  by (induction d q xs best rule: nearest_scan.induct) auto

lemma enumerate_fst_lt: "p \<in> set (enumerate vs) \<Longrightarrow> fst p < length vs"
  by (auto simp: enumerate_def in_set_zip)


lemma GetNearestVertex_lt:
  "vertices t \<noteq> [] \<Longrightarrow> fst (GetNearestVertex e t q) < length (vertices t)"
proof (cases "vertices t")
  case Nil
  then show "vertices t \<noteq> [] \<Longrightarrow> ?thesis" by simp
next
  case (Cons v vs)
  have "\<forall>p\<in>set (tl (enumerate (v # vs))). fst p < length (v # vs)"
  proof
    fix p assume "p \<in> set (tl (enumerate (v # vs)))"
    then have "p \<in> set (enumerate (v # vs))"
      by (rule list.set_sel(2)[rotated]) (auto simp: enumerate_def)
    then show "fst p < length (v # vs)" by (rule enumerate_fst_lt)
  qed
  then show ?thesis using Cons
    by (simp add: GetNearestVertex_def nearest_scan_lt)
qed

text \<open>
  When the sampling loop ends on a tree with a vertex, it has found a target whose edge
  to its nearest vertex is valid.
\<close>

lemma sample_valid_edge_result:
  assumes "sample_valid_edge P goal g = Some (r, g')" and "vertices (tree P) \<noteq> []"
  shows "\<exists>x_rand i. r = Inr (x_rand, i, vertices (tree P) ! i) \<and>
           i < length (vertices (tree P)) \<and>
           edge_validity_checker (env P) x_rand (vertices (tree P) ! i)"
proof -
  have "sample_valid_edge P' goal' g0 = Some y \<Longrightarrow>
     (\<lambda>x y. vertices (tree (fst (fst x))) \<noteq> [] \<longrightarrow>
        (\<exists>x_rand i. fst y = Inr (x_rand, i, vertices (tree (fst (fst x))) ! i) \<and>
            i < length (vertices (tree (fst (fst x)))) \<and>
            edge_validity_checker (env (fst (fst x))) x_rand
              (vertices (tree (fst (fst x))) ! i)))
       ((P', goal'), g0) y" for P' goal' g0 y
    apply (erule sample_valid_edge.raw_induct[rotated])
    apply (auto split: prod.splits if_splits)
    using GetNearestVertex_lt apply (metis fst_conv)
    done
  from this[OF assms(1)] assms(2) show ?thesis by simp
qed

subsection \<open>Unsupported dimensions\<close>

lemma extend_unsupported:
  "c_space_dim (env P) \<noteq> 2 \<Longrightarrow> c_space_dim (env P) \<noteq> 3 \<Longrightarrow>
   extend P a b = Inl UnboundLocalError"
  by (simp add: extend_def extend_raw_def)

lemma iteration_unsupported:
  assumes dim: "c_space_dim (env P) \<noteq> 2" "c_space_dim (env P) \<noteq> 3"
    and ne: "vertices (tree P) \<noteq> []"
    and it: "iteration P goal rad b g = Some (r, P', g')"
  shows "r = Inl UnboundLocalError \<and> P' = P"
proof (cases "sample_valid_edge P goal g")
  case None
  with it show ?thesis by (simp add: iteration_def)
next
  case (Some a)
  obtain r0 g0 where a: "a = (r0, g0)" by (cases a)
  from sample_valid_edge_result[OF Some[unfolded a] ne]
  obtain x_rand i where "r0 = Inr (x_rand, i, vertices (tree P) ! i)" by blast
  with it Some a dim show ?thesis
    by (simp add: iteration_def extend_unsupported)
qed

text \<open>
  Claim C9, as amended. The constructor does not look at the dimension: it stores the
  environment as it is and creates an empty tree. With a dimension other than 2 and 3
  and at least one iteration, a call of \<open>Plan\<close> that gets through the sampling loop
  fails in the first iteration, when \<open>extend\<close> uses its unassigned local variable; the
  start configuration has been inserted by then and is the only change to the planner.
\<close>

theorem unsupported_dimension_fails_in_extend:
  assumes "c_space_dim e \<noteq> 2" and "c_space_dim e \<noteq> 3" and "0 < m"
    and "Plan (fst (init e rand_seed b et m g0)) t0 t1 start_config goal_config rad g =
         Some (r, P', g')"
  shows "env (fst (init e rand_seed b et m g0)) = e \<and>
         tree (fst (init e rand_seed b et m g0)) = RRTTree \<and>
         r = Inl UnboundLocalError \<and>
         P' = (fst (init e rand_seed b et m g0))
                \<lparr>tree := fst (AddVertex RRTTree start_config None)\<rparr>"
proof -
  let ?P = "fst (init e rand_seed b et m g0)"
  let ?Q = "?P\<lparr>tree := fst (AddVertex (tree ?P) start_config None)\<rparr>"
  have ids: "[1..<max_iter ?P + 1] = 1 # [Suc 1..<m + 1]"
    using assms(3) by (simp add: init_def RRTTree_init_def upt_conv_Cons)
  have dim: "c_space_dim (env ?Q) \<noteq> 2" "c_space_dim (env ?Q) \<noteq> 3"
    using assms(1,2) by (simp_all add: init_def RRTTree_init_def)
  have ne: "vertices (tree ?Q) \<noteq> []" by (simp add: AddVertex_def)
  have tr: "tree ?P = RRTTree" by (simp add: init_def RRTTree_init_def)
  show ?thesis
  proof (cases "iteration ?Q goal_config rad 1 g")
    case None
    with assms(4) ids show ?thesis by (simp add: Plan_def)
  next
    case (Some a)
    obtain r1 P1 g1 where a: "a = (r1, P1, g1)" by (cases a)
    from iteration_unsupported[OF dim ne Some[unfolded a] ]
    have "r1 = Inl UnboundLocalError" "P1 = ?Q" by simp_all
    with assms(4) ids Some a have "r = Inl UnboundLocalError" "P' = ?Q"
      by (simp_all add: Plan_def)
    then show ?thesis using tr by (simp add: init_def RRTTree_init_def)
  qed
qed

theorem unsupported_dimension_fails_in_extend_witness:
  "env planner_4d = free_env 4 [4, 0, 0, 0] \<and> tree planner_4d = RRTTree \<and>
   planner_4d\<lparr>tree := \<lparr>vertices = [ [0, 0, 0, 0] ], edges = Map.empty, time_cost = None,
                        path_cost = None\<rparr>\<rparr> =
     planner_4d\<lparr>tree := fst (AddVertex RRTTree [0, 0, 0, 0] None)\<rparr>"
proof -
  have run: "Plan (fst (init (free_env 4 [4, 0, 0, 0]) 0 1 1 1 0)) 0 1 [0, 0, 0, 0] [4, 0, 0, 0] 10 (0::nat) =
      Some (Inl UnboundLocalError,
            planner_4d\<lparr>tree := \<lparr>vertices = [ [0, 0, 0, 0] ], edges = Map.empty,
                                time_cost = None, path_cost = None\<rparr>\<rparr>, Suc 0)"
    by (simp add: model_defs planner_4d_def)
  have dim: "c_space_dim (free_env 4 [4, 0, 0, 0] :: nat environment) \<noteq> 2"
    "c_space_dim (free_env 4 [4, 0, 0, 0] :: nat environment) \<noteq> 3"
    by (simp_all add: free_env_def)
  from unsupported_dimension_fails_in_extend[OF dim _ run]
  show ?thesis by (simp add: planner_4d_def)
qed

text \<open>
  Claim C9 as stated fails: over a four-dimensional environment the constructor
  returns a planner, and the failure comes from \<open>Plan\<close>, in the first iteration, after
  the start configuration has been inserted and a target has been drawn.
\<close>

theorem construction_accepts_dimension_counterexample:
  "fst (init (free_env 4 [4, 0, 0, 0]) 0 1 1 1 0) =
     \<lparr>env = free_env 4 [4, 0, 0, 0], tree = RRTTree, bias = 1, max_iter = 1, eta = 1\<rparr> \<and>
   Plan (fst (init (free_env 4 [4, 0, 0, 0]) 0 1 1 1 0)) 0 1 [0, 0, 0, 0] [4, 0, 0, 0] 10 (0::nat) =
     Some (Inl UnboundLocalError,
           \<lparr>env = free_env 4 [4, 0, 0, 0],
            tree = \<lparr>vertices = [ [0, 0, 0, 0] ], edges = Map.empty, time_cost = None,
                    path_cost = None\<rparr>,
            bias = 1, max_iter = 1, eta = 1\<rparr>, 1)"
  by (simp add: model_defs)

subsection \<open>An exhausted budget\<close>

text \<open>
  Claim C5 is not what the code does: with the goal \<open>(4, 0)\<close>, the step scale 1/2 and a
  budget of one iteration, the only new vertex is \<open>(2, 0)\<close>; the final goal check fails,
  \<^verbatim>\<open>path\<close> is still \<^verbatim>\<open>None\<close>, and \<^verbatim>\<open>len(path)\<close> raises \<^verbatim>\<open>TypeError\<close> instead of the planner
  reporting that no path was found.
\<close>

theorem exhausted_budget_raises_type_error:
  "Plan half_step_planner 0 1 [0, 0] [4, 0] 10 (0::nat) =
     Some (Inl TypeError,
           \<lparr>env = free_env 2 [4, 0],
            tree = \<lparr>vertices = [ [0, 0], [2, 0] ], edges = [1 \<mapsto> 0], time_cost = None,
                    path_cost = None\<rparr>,
            bias = 1, max_iter = 1, eta = 1 / 2\<rparr>, 1)"
  by (simp add: model_defs half_step_planner_def)

subsection \<open>The extension step\<close>














subsection \<open>Rules for the loops\<close>

lemma rewire_Cons_cases:
  assumes "rewire P x_new b ((i, x) # rest) = Some (r, P')"
  obtains (skip) "rewire P x_new b rest = Some (r, P')"
  | (err) e where "r = Inl e" "P' = P"
  | (rewired) c_new c_near where "edge_validity_checker (env P) x_new x"
      "compute_cost P b = Some (Inr c_new)" "compute_cost P i = Some (Inr c_near)"
      "c_new + compute_distance (env P) x x_new < c_near"
      "rewire (P\<lparr>tree := AddEdge (tree P) b i\<rparr>) x_new b rest = Some (r, P')"
  using assms by (auto split: if_splits option.splits sum.splits)

lemma rewire_invariant:
  assumes "rewire P x_new b near = Some (r, P')" and "I P"
    and step: "\<And>Q i x c_new c_near. I Q \<Longrightarrow> (i, x) \<in> set near \<Longrightarrow>
       edge_validity_checker (env Q) x_new x \<Longrightarrow>
       compute_cost Q b = Some (Inr c_new) \<Longrightarrow> compute_cost Q i = Some (Inr c_near) \<Longrightarrow>
       c_new + compute_distance (env Q) x x_new < c_near \<Longrightarrow>
       I (Q\<lparr>tree := AddEdge (tree Q) b i\<rparr>)"
  shows "I P'"
  using assms
proof (induction near arbitrary: P)
  case Nil
  then show ?case by simp
next
  case (Cons p near)
  obtain i x where p: "p = (i, x)" by (cases p)
  have step': "I (Q\<lparr>tree := AddEdge (tree Q) b j\<rparr>)"
    if "I Q" "(j, y) \<in> set near" "edge_validity_checker (env Q) x_new y"
      "compute_cost Q b = Some (Inr c_new)" "compute_cost Q j = Some (Inr c_near)"
      "c_new + compute_distance (env Q) y x_new < c_near" for Q j y c_new c_near
    using Cons.prems(3)[of Q j y c_new c_near] that by simp
  from Cons.prems(1)[unfolded p] show ?case
  proof (cases rule: rewire_Cons_cases)
    case skip
    then show ?thesis using Cons.IH[OF skip Cons.prems(2)] step' by blast
  next
    case (err e)
    then show ?thesis using Cons.prems(2) by simp
  next
    case (rewired c_new c_near)
    have "I (P\<lparr>tree := AddEdge (tree P) b i\<rparr>)"
      using Cons.prems(3)[OF Cons.prems(2) _ rewired(1,2,3,4)] p by simp
    from Cons.IH[OF rewired(5) this] step' show ?thesis by blast
  qed
qed

lemma iteration_cases:
  assumes "iteration P goal rad b g = Some (r, P', g')"
  obtains (err) e where "r = Inl e" "P' = P"
  | (step) x_rand i x_nearest x_new c x_min_id x_min cost_min where
      "sample_valid_edge P goal g = Some (Inr (x_rand, i, x_nearest), g')"
      "extend P x_nearest x_rand = Inr x_new"
      "compute_cost P i = Some (Inr c)"
      "select_parent P x_new (GetNNInRad (env P) (tree P) x_new rad)
         (i, x_nearest, c + compute_distance (env P) x_nearest x_new) =
       Some (Inr (x_min_id, x_min, cost_min))"
      "rewire (P\<lparr>tree := AddEdge (fst (AddVertex (tree P) x_new
                 (Some (compute_distance (env P) x_min x_new)))) x_min_id b\<rparr>)
         x_new b (GetNNInRad (env P) (tree P) x_new rad) = Some (r, P')"
  using assms unfolding iteration_def
  by (auto split: option.splits sum.splits prod.splits)

lemma grow_invariant:
  assumes "grow P goal rad ids g = Some (r, P', g')" and "I ids P"
    and step: "\<And>Q b rest g1 r1 Q' g2. I (b # rest) Q \<Longrightarrow>
       iteration Q goal rad b g1 = Some (r1, Q', g2) \<Longrightarrow> I rest Q'"
  shows "\<exists>rest. I rest P'"
  using assms(1,2)
proof (induction ids arbitrary: P g)
  case Nil
  then show ?case by auto
next
  case (Cons b ids)
  from Cons.prems(1) obtain r1 Q g1 where it: "iteration P goal rad b g = Some (r1, Q, g1)"
    by (auto split: option.splits)
  from step[OF Cons.prems(2) it] have Q: "I ids Q" .
  from Cons.prems(1) it
  consider "P' = Q" | "grow Q goal rad ids g1 = Some (r, P', g')"
    by (auto split: sum.splits if_splits prod.splits)
  then show ?case
  proof cases
    case 1
    with Q show ?thesis by blast
  next
    case 2
    from Cons.IH[OF 2 Q] show ?thesis .
  qed
qed

lemma Plan_cases:
  assumes "Plan P t0 t1 start goal rad g = Some (r, P', g')"
  obtains (err) e x where "r = Inl e"
      "grow (P\<lparr>tree := fst (AddVertex (tree P) start None)\<rparr>) goal rad [1..<max_iter P + 1] g
        = Some (x, P', g')"
  | (path) found Q i walked where
      "grow (P\<lparr>tree := fst (AddVertex (tree P) start None)\<rparr>) goal rad [1..<max_iter P + 1] g
        = Some (Inr found, Q, g')"
      "i = fst (GetNearestVertex (env Q) (tree Q) goal)" "i < length (vertices (tree Q))"
      "found \<or> goal_criterion (env Q) (vertices (tree Q) ! i)"
      "path_walk Q start i (vertices (tree Q) ! i) [] = Some (Inr walked)"
      "r = Inr (rev walked)"
      "P' = Q\<lparr>tree := (tree Q)\<lparr>time_cost := Some (t1 - t0),
               path_cost := Some (round4 (py_sum (segment_costs (env Q) (rev walked))))\<rparr>\<rparr>"
  using assms unfolding Plan_def
  by (auto split: option.splits sum.splits prod.splits if_splits)

subsection \<open>The tree only grows\<close>

lemma grows_from_refl [simp]: "grows_from P P"
  by (simp add: grows_from_def)

lemma grows_from_trans: "grows_from P Q \<Longrightarrow> grows_from Q R \<Longrightarrow> grows_from P R"
  unfolding grows_from_def
  by (metis (no_types, lifting) planner.surjective planner.update_convs(2) prefix_order.order_trans subset_trans)

lemma grows_from_AddEdge: "grows_from P (P\<lparr>tree := AddEdge (tree P) a b\<rparr>)"
  by (auto simp: grows_from_def AddEdge_def)

lemma grows_from_AddVertex: "grows_from P (P\<lparr>tree := fst (AddVertex (tree P) x c)\<rparr>)"
  by (auto simp: grows_from_def AddVertex_def)

lemma rewire_grows:
  assumes "rewire P x_new b near = Some (r, P')"
  shows "grows_from P P'"
  by (rule rewire_invariant[OF assms, where I = "grows_from P"])
     (auto intro: grows_from_trans grows_from_AddEdge)


lemma iteration_grows:
  assumes "iteration P goal rad b g = Some (r, P', g')"
  shows "grows_from P P'"
  using assms
proof (cases rule: iteration_cases)
  case (err e)
  then show ?thesis by simp
next
  case (step x_rand i x_nearest x_new c x_min_id x_min cost_min)
  let ?c = "Some (compute_distance (env P) x_min x_new)"
  let ?P1 = "P\<lparr>tree := fst (AddVertex (tree P) x_new ?c)\<rparr>"
  have "grows_from P ?P1" by (rule grows_from_AddVertex)
  moreover have "grows_from ?P1 (?P1\<lparr>tree := AddEdge (tree ?P1) x_min_id b\<rparr>)"
    by (rule grows_from_AddEdge)
  ultimately have "grows_from P (P\<lparr>tree := AddEdge (fst (AddVertex (tree P) x_new ?c)) x_min_id b\<rparr>)"
    using grows_from_trans by fastforce
  with rewire_grows[OF step(5)] show ?thesis by (rule grows_from_trans[rotated])
qed

lemma grow_grows:
  assumes "grow P goal rad ids g = Some (r, P', g')"
  shows "grows_from P P'"
proof -
  from grow_invariant[OF assms, where I = "\<lambda>_. grows_from P"]
  show ?thesis using iteration_grows grows_from_trans by fastforce
qed

lemma grows_from_tree_update:
  "grows_from P Q \<Longrightarrow> vertices T = vertices (tree Q) \<Longrightarrow> edges T = edges (tree Q) \<Longrightarrow>
   grows_from P (Q\<lparr>tree := T\<rparr>)"
  by (cases P, cases Q) (auto simp: grows_from_def)

lemma Plan_grows:
  assumes "Plan P t0 t1 start goal rad g = Some (r, P', g')"
  shows "grows_from (P\<lparr>tree := fst (AddVertex (tree P) start None)\<rparr>) P'"
  using assms
proof (cases rule: Plan_cases)
  case (err e x)
  then show ?thesis by (simp add: grow_grows)
next
  case (path found Q i walked)
  from grow_grows[OF path(1)] show ?thesis
    unfolding path(7) by (rule grows_from_tree_update) simp_all
qed

lemma Plan_extends:
  assumes "Plan P t0 t1 start goal rad g = Some (r, P', g')"
  shows "prefix (vertices (tree P) @ [start]) (vertices (tree P')) \<and>
         dom (edges (tree P)) \<subseteq> dom (edges (tree P'))"
  using Plan_grows[OF assms] by (simp add: grows_from_def AddVertex_def)

lemma prefix_snoc_nth: "prefix (xs @ [x]) ys \<Longrightarrow> ys ! length xs = x \<and> length xs < length ys"
  by (auto simp: prefix_def)

lemma first_run:
  "Plan full_step_planner 0 1 [0, 0] [4, 0] 10 (0::nat) =
     Some (Inr [ [0, 0], [4, 0] ], after_first_run, 1)"
  by (simp add: model_defs full_step_planner_def after_first_run_def)

lemma second_run:
  "Plan after_first_run 1 2 [0, 0] [4, 0] 10 (1::nat) =
     Some (Inl KeyError, after_second_run, 2)"
  by (simp add: model_defs after_first_run_def after_second_run_def)

text \<open>
  Claim C10. The constructor creates the tree, empty. A call of \<open>Plan\<close> that comes back,
  with a path or with an exception, leaves a tree whose vertex list starts with the
  vertex list it found followed by the start configuration, and in which every child
  that had a parent still has one. So in a second call on the same planner the tree
  holds the vertices of the first call, the new start configuration gets the next free
  id, which is not 0, and the vertex with id 0 stays the one of the first call.
\<close>

theorem Plan_never_resets_tree:
  assumes "Plan P t0 t1 start1 goal1 rad1 g = Some (r1, P1, g1)"
    and "Plan P1 t2 t3 start2 goal2 rad2 g1 = Some (r2, P2, g2)"
  shows "tree (fst (init e rand_seed b et m g0)) = RRTTree \<and>
         prefix (vertices (tree P) @ [start1]) (vertices (tree P1)) \<and>
         dom (edges (tree P)) \<subseteq> dom (edges (tree P1)) \<and>
         prefix (vertices (tree P1) @ [start2]) (vertices (tree P2)) \<and>
         dom (edges (tree P1)) \<subseteq> dom (edges (tree P2)) \<and>
         0 < length (vertices (tree P1)) \<and>
         vertices (tree P2) ! length (vertices (tree P1)) = start2 \<and>
         vertices (tree P2) ! 0 = vertices (tree P1) ! 0"
proof -
  note e1 = Plan_extends[OF assms(1)] and e2 = Plan_extends[OF assms(2)]
  from e1 have pos: "0 < length (vertices (tree P1))"
    by (auto simp: prefix_def)
  from e2 have "prefix (vertices (tree P1)) (vertices (tree P2))"
    using append_prefixD by blast
  with pos have "vertices (tree P2) ! 0 = vertices (tree P1) ! 0"
    by (auto simp: prefix_def nth_append)
  with e1 e2 pos prefix_snoc_nth[of "vertices (tree P1)" start2 "vertices (tree P2)"] show ?thesis
    by (simp add: init_def RRTTree_init_def)
qed

theorem Plan_never_resets_tree_witness:
  "tree (fst (init (free_env 2 [4, 0]) 0 1 1 1 0) :: nat planner) = RRTTree \<and>
   prefix (vertices (tree full_step_planner) @ [ [0, 0] ]) (vertices (tree after_first_run)) \<and>
   dom (edges (tree full_step_planner)) \<subseteq> dom (edges (tree after_first_run)) \<and>
   prefix (vertices (tree after_first_run) @ [ [0, 0] ]) (vertices (tree after_second_run)) \<and>
   dom (edges (tree after_first_run)) \<subseteq> dom (edges (tree after_second_run)) \<and>
   0 < length (vertices (tree after_first_run)) \<and>
   vertices (tree after_second_run) ! length (vertices (tree after_first_run)) = [0, 0] \<and>
   vertices (tree after_second_run) ! 0 = vertices (tree after_first_run) ! 0"
  by (rule Plan_never_resets_tree[OF first_run second_run])

subsection \<open>Determinism\<close>




subsection \<open>Parent selection\<close>

lemma select_parent_Cons_cases:
  assumes "select_parent P x_new ((j, x) # rest) (i0, x0, c0) = Some (Inr res)"
  obtains (invalid) "\<not> edge_validity_checker (env P) x_new x"
      "select_parent P x_new rest (i0, x0, c0) = Some (Inr res)"
  | (better) cj where "edge_validity_checker (env P) x_new x"
      "compute_cost P j = Some (Inr cj)" "cj + compute_distance (env P) x x_new < c0"
      "select_parent P x_new rest (j, x, cj + compute_distance (env P) x x_new) = Some (Inr res)"
  | (worse) cj where "edge_validity_checker (env P) x_new x"
      "compute_cost P j = Some (Inr cj)" "\<not> cj + compute_distance (env P) x x_new < c0"
      "select_parent P x_new rest (i0, x0, c0) = Some (Inr res)"
  using assms by (auto split: if_splits option.splits sum.splits)

lemma select_parent_acc:
  assumes "select_parent P x_new near (i0, x0, c0) = Some (Inr (im, xm, cm))"
  shows "cm \<le> c0 \<and>
     ((im, xm, cm) = (i0, x0, c0) \<or>
      (\<exists>c. (im, xm) \<in> set near \<and> edge_validity_checker (env P) x_new xm \<and>
           compute_cost P im = Some (Inr c) \<and> cm = c + compute_distance (env P) xm x_new)) \<and>
     (\<forall>(j, x)\<in>set near. edge_validity_checker (env P) x_new x \<longrightarrow>
        (\<exists>cj. compute_cost P j = Some (Inr cj) \<and> cm \<le> cj + compute_distance (env P) x x_new))"
  using assms
proof (induction near arbitrary: i0 x0 c0)
  case Nil
  then show ?case by simp
next
  case (Cons p near)
  obtain j x where p: "p = (j, x)" by (cases p)
  from Cons.prems[unfolded p] show ?case
  proof (cases rule: select_parent_Cons_cases)
    case invalid
    from Cons.IH[OF invalid(2)] invalid(1) show ?thesis
      unfolding p by auto
  next
    case (better cj)
    from Cons.IH[OF better(4)] better(1,2,3) show ?thesis
      unfolding p by auto
  next
    case (worse cj)
    from Cons.IH[OF worse(4)] worse(1,2,3) show ?thesis
      unfolding p by auto
  qed
qed




subsection \<open>The returned path\<close>

lemma path_walk_result:
  assumes "path_walk P start i (vertices (tree P) ! i) acc = Some (Inr w)"
  shows "\<exists>ids. w = acc @ map ((!) (vertices (tree P))) ids \<and> ids \<noteq> [] \<and> hd ids = i \<and>
           parent_chain (tree P) ids \<and> vertices (tree P) ! last ids = start"
proof -
  have "path_walk P' s' i' v' acc' = Some y \<Longrightarrow>
     (\<lambda>x y. snd (fst x) = vertices (tree (fst (fst (fst (fst x))))) ! snd (fst (fst x)) \<longrightarrow>
        (\<forall>w. y = Inr w \<longrightarrow>
          (\<exists>ids. w = snd x @ map ((!) (vertices (tree (fst (fst (fst (fst x))))))) ids \<and> ids \<noteq> [] \<and>
             hd ids = snd (fst (fst x)) \<and> parent_chain (tree (fst (fst (fst (fst x))))) ids \<and>
             vertices (tree (fst (fst (fst (fst x))))) ! last ids = snd (fst (fst (fst x))))))
       ((((P', s'), i'), v'), acc') y" for P' s' i' v' acc' y
    apply (erule path_walk.raw_induct[rotated])
    apply (clarsimp split: if_splits option.splits)
    subgoal premises prems for f P2 s2 i2 acc2 p2 w2
    proof -
      from prems(1)[OF prems(5)] obtain ids where ids:
        "w2 = (acc2 @ [vertices (tree P2) ! i2]) @ map ((!) (vertices (tree P2))) ids"
        "ids \<noteq> []" "hd ids = p2" "parent_chain (tree P2) ids"
        "vertices (tree P2) ! last ids = s2"
        by auto
      from ids(2,3) obtain rest where r: "ids = p2 # rest" by (cases ids) auto
      show ?thesis
        by (rule exI[of _ "i2 # ids"]) (use ids r prems(3) in simp)
    qed
    subgoal for f P2 i2
      by (rule exI[of _ "[i2]"]) simp
    done
  from this[OF assms] show ?thesis by simp
qed


lemma grow_found:
  "grow P goal rad ids g = Some (Inr True, P', g') \<Longrightarrow>
   goal_criterion (env P')
     (vertices (tree P') ! fst (GetNearestVertex (env P') (tree P') goal))"
proof (induction ids arbitrary: P g)
  case Nil
  then show ?case by simp
next
  case (Cons b ids)
  from Cons.prems obtain r1 Q g1 where it: "iteration P goal rad b g = Some (r1, Q, g1)"
    by (auto split: option.splits)
  from Cons.prems it
  consider "P' = Q" "goal_criterion (env Q)
       (vertices (tree Q) ! fst (GetNearestVertex (env Q) (tree Q) goal))"
    | "grow Q goal rad ids g1 = Some (Inr True, P', g')"
    by (auto split: sum.splits if_splits prod.splits)
  then show ?case
  proof cases
    case 1
    then show ?thesis by simp
  next
    case 2
    from Cons.IH[OF 2] show ?thesis .
  qed
qed


lemma GetNearestVertex_cong:
  "vertices t' = vertices t \<Longrightarrow> GetNearestVertex e t' q = GetNearestVertex e t q"
  by (simp add: GetNearestVertex_def)

text \<open>
  Claim C7, as amended. Whenever \<open>Plan\<close> returns a path, the path is the reversed walk
  along the parent edges from the vertex nearest to the goal, taken until the first
  vertex whose configuration equals the start configuration: its first element equals
  the start configuration, its last element satisfies the goal criterion, and the
  reported path cost is the sum of the distances between consecutive elements, added
  from left to right in path order and then rounded to four decimal places.
\<close>

theorem returned_path:
  assumes "Plan P t0 t1 start goal rad g = Some (Inr path, P', g')"
  shows "\<exists>ids. path = map ((!) (vertices (tree P'))) (rev ids) \<and> ids \<noteq> [] \<and>
           hd ids = fst (GetNearestVertex (env P) (tree P') goal) \<and>
           parent_chain (tree P') ids \<and>
           hd path = start \<and> goal_criterion (env P) (last path) \<and>
           path_cost (tree P') = Some (round4 (py_sum (segment_costs (env P) path)))"
  using assms
proof (cases rule: Plan_cases)
  case (err e x)
  then show ?thesis by simp
next
  case (path found Q i walked)
  from grow_grows[OF path(1)] have envQ: "env Q = env P"
    by (cases P, cases Q) (auto simp: grows_from_def)
  from path_walk_result[OF path(5)] obtain ids where ids:
    "walked = map ((!) (vertices (tree Q))) ids" "ids \<noteq> []" "hd ids = i"
    "parent_chain (tree Q) ids" "vertices (tree Q) ! last ids = start"
    by auto
  have goal_ok: "goal_criterion (env Q) (vertices (tree Q) ! i)"
  proof (cases found)
    case True
    with grow_found[of _ goal rad _ g Q g'] path(1,2) show ?thesis by simp
  next
    case False
    with path(4) show ?thesis by simp
  qed
  have v: "vertices (tree P') = vertices (tree Q)" and e: "edges (tree P') = edges (tree Q)"
    by (simp_all add: path(7))
  have pc: "parent_chain (tree P') ids = parent_chain (tree Q) ids" for ids
    by (induction "tree Q" ids rule: parent_chain.induct) (simp_all add: e)
  have p: "path = rev walked" using path(6) by simp
  have hd_path: "hd path = start"
    using ids(1,2,5) by (simp add: p hd_rev last_map)
  have last_path: "last path = vertices (tree Q) ! i"
    using ids(1,2,3) by (simp add: p last_rev hd_map)
  have cost: "path_cost (tree P') = Some (round4 (py_sum (segment_costs (env P) path)))"
    by (simp add: path(7) p envQ)
  have near: "hd ids = fst (GetNearestVertex (env P) (tree P') goal)"
    by (simp add: ids(3) path(2) envQ GetNearestVertex_cong[OF v])
  show ?thesis
    apply (rule exI[of _ ids])
    using ids(2,4) hd_path last_path goal_ok cost near envQ
    by (simp add: p ids(1) v pc rev_map)
qed

theorem returned_path_witness:
  "\<exists>ids. [ [0, 0], [4, 0] ] = map ((!) (vertices (tree after_first_run))) (rev ids) \<and> ids \<noteq> [] \<and>
         hd ids = fst (GetNearestVertex (env full_step_planner) (tree after_first_run) [4, 0]) \<and>
         parent_chain (tree after_first_run) ids \<and>
         hd [ [0, 0], [4, 0 :: real] ] = [0, 0] \<and>
         goal_criterion (env full_step_planner) (last [ [0, 0], [4, 0] ]) \<and>
         path_cost (tree after_first_run) =
           Some (round4 (py_sum (segment_costs (env full_step_planner) [ [0, 0], [4, 0] ])))"
  by (rule returned_path[OF first_run])

text \<open>
  Claim C7 as stated fails: from the start \<open>(0.00001, 0)\<close> the returned path has the
  single segment of length 3.99999, and the reported path cost is 4.
\<close>

theorem path_cost_rounded_counterexample:
  "Plan full_step_planner 0 1 [1 / 100000, 0] [4, 0] 10 (0::nat) =
     Some (Inr [ [1 / 100000, 0], [4, 0] ], after_offset_run, 1) \<and>
   path_cost (tree after_offset_run) = Some 4 \<and>
   py_sum (segment_costs (env after_offset_run) [ [1 / 100000, 0], [4, 0] ]) = 399999 / 100000"
  by (simp add: model_defs np_round_def full_step_planner_def after_offset_run_def)

subsection \<open>Root paths\<close>

lemma root_path_Suc: "root_path t k v = Some p \<Longrightarrow> root_path t (Suc k) v = Some p"
proof (induction k arbitrary: v p)
  case 0
  then show ?case by (auto split: if_splits)
next
  case (Suc k)
  show ?case
  proof (cases "v = GetRootID t")
    case True
    with Suc.prems show ?thesis by simp
  next
    case False
    with Suc.prems obtain q p' where q: "edges t v = Some q" "q < length (vertices t)"
      "root_path t k q = Some p'" "p = v # p'"
      by (auto split: option.splits if_splits)
    from Suc.IH[OF q(3)] q False show ?thesis by simp
  qed
qed

lemma root_path_add: "root_path t k v = Some p \<Longrightarrow> root_path t (k + d) v = Some p"
proof (induction d)
  case 0
  then show ?case by simp
next
  case (Suc d)
  from root_path_Suc[OF Suc.IH[OF Suc.prems] ] show ?case by (simp del: root_path.simps)
qed

lemma root_path_mono: "root_path t k v = Some p \<Longrightarrow> k \<le> j \<Longrightarrow> root_path t j v = Some p"
  using root_path_add[of t k v p "j - k"] by simp

lemma root_path_unique:
  assumes "root_path t k v = Some p" and "root_path t j v = Some q"
  shows "p = q"
proof -
  from root_path_mono[OF assms(1), of "max k j"] root_path_mono[OF assms(2), of "max k j"]
  show ?thesis by simp
qed

lemma root_path_length: "root_path t k v = Some p \<Longrightarrow> root_path t (length p - 1) v = Some p"
proof (induction k arbitrary: v p)
  case 0
  then show ?case by (auto split: if_splits)
next
  case (Suc k)
  show ?case
  proof (cases "v = GetRootID t")
    case True
    with Suc.prems show ?thesis by auto
  next
    case False
    with Suc.prems obtain q p' where q: "edges t v = Some q" "q < length (vertices t)"
      "root_path t k q = Some p'" "p = v # p'"
      by (auto split: option.splits if_splits)
    from root_path_hd[OF q(3)] obtain m where m: "length p' = Suc m" by auto
    with Suc.IH[OF q(3)] have "root_path t m q = Some p'" by simp
    with q False have "root_path t (Suc m) v = Some p" by simp
    with m q(4) show ?thesis by simp
  qed
qed

lemma root_path_set:
  "root_path t k v = Some p \<Longrightarrow> v < length (vertices t) \<Longrightarrow> set p \<subseteq> {..<length (vertices t)}"
proof (induction k arbitrary: v p)
  case 0
  then show ?case by (auto split: if_splits)
next
  case (Suc k)
  show ?case
  proof (cases "v = GetRootID t")
    case True
    with Suc.prems show ?thesis by auto
  next
    case False
    with Suc.prems obtain q p' where q: "edges t v = Some q" "q < length (vertices t)"
      "root_path t k q = Some p'" "p = v # p'"
      by (auto split: option.splits if_splits)
    from Suc.IH[OF q(3) q(2)] q(4) Suc.prems(2) show ?thesis by auto
  qed
qed

text \<open>Every id on the root path of a vertex has its own root path, a suffix of it.\<close>

lemma root_path_suffix:
  "root_path t k v = Some p \<Longrightarrow> w \<in> set p \<Longrightarrow>
   \<exists>j s. root_path t j w = Some s \<and> suffix s p"
proof (induction k arbitrary: v p)
  case 0
  from "0.prems"(1) have "p = [v]" by (simp split: if_splits)
  with "0.prems" have "root_path t 0 w = Some p \<and> suffix p p" by simp
  then show ?case by (intro exI)
next
  case (Suc k)
  show ?case
  proof (cases "w = v")
    case True
    with Suc.prems(1) have "root_path t (Suc k) w = Some p \<and> suffix p p" by simp
    then show ?thesis by (intro exI)
  next
    case wv: False
    show ?thesis
    proof (cases "v = GetRootID t")
      case True
      with Suc.prems wv show ?thesis by auto
    next
      case False
      with Suc.prems obtain q p' where q: "edges t v = Some q" "q < length (vertices t)"
        "root_path t k q = Some p'" "p = v # p'"
        by (auto split: option.splits if_splits)
      from Suc.prems(2) wv q(4) have "w \<in> set p'" by simp
      from Suc.IH[OF q(3) this] obtain j s where js: "root_path t j w = Some s" "suffix s p'"
        by blast
      from js(2) have "suffix s p" unfolding q(4) by (simp add: suffix_Cons)
      with js(1) have "root_path t j w = Some s \<and> suffix s p" by simp
      then show ?thesis by (intro exI)
    qed
  qed
qed

lemma root_path_distinct: "root_path t k v = Some p \<Longrightarrow> distinct p"
proof (induction k arbitrary: v p)
  case 0
  then show ?case by (auto split: if_splits)
next
  case (Suc k)
  show ?case
  proof (cases "v = GetRootID t")
    case True
    with Suc.prems show ?thesis by auto
  next
    case False
    with Suc.prems obtain q p' where q: "edges t v = Some q" "q < length (vertices t)"
      "root_path t k q = Some p'" "p = v # p'"
      by (auto split: option.splits if_splits)
    have "v \<notin> set p'"
    proof
      assume "v \<in> set p'"
      from root_path_suffix[OF q(3) this] obtain j s where s: "root_path t j v = Some s" "suffix s p'"
        by blast
      from root_path_unique[OF s(1) Suc.prems] have "s = v # p'" using q(4) by simp
      with s(2) have "length (v # p') \<le> length p'" using suffix_length_le by blast
      then show False by simp
    qed
    with Suc.IH[OF q(3)] q(4) show ?thesis by simp
  qed
qed

lemma root_path_bounded:
  assumes "root_path t k v = Some p" and "v < length (vertices t)"
  shows "root_path t (length (vertices t)) v = Some p"
proof -
  have "card (set p) \<le> card {..<length (vertices t)}"
    by (rule card_mono) (use root_path_set[OF assms] in auto)
  with root_path_distinct[OF assms(1)] have "length p \<le> length (vertices t)"
    by (simp add: distinct_card)
  with root_path_mono[OF root_path_length[OF assms(1)] ] show ?thesis by simp
qed

lemma compute_cost_root_path:
  assumes "v < length (vertices (tree P))" and "root_path (tree P) k v = Some p"
  shows "compute_cost P v =
           Some (Inr (chain_cost (compute_distance (env P)) (vertices (tree P)) p))"
  using cost_walk_root_path[OF assms(2), of 0] assms(1) by (simp add: compute_cost_def)

lemma chain_cost_nonneg:
  "\<forall>a b. 0 \<le> d a b \<Longrightarrow> 0 \<le> chain_cost d vs p"
  by (induction d vs p rule: chain_cost.induct) (auto intro: add_nonneg_nonneg)

lemma chain_cost_Cons_ge:
  "\<forall>a b. 0 \<le> d a b \<Longrightarrow> chain_cost d vs p \<le> chain_cost d vs (a # p)"
  by (cases p) (auto)

lemma chain_cost_suffix:
  assumes "\<forall>a b. 0 \<le> (d a b :: real)" and "suffix s p"
  shows "chain_cost d vs s \<le> chain_cost d vs p"
  using assms(2)
proof (induction p)
  case Nil
  then show ?case by simp
next
  case (Cons a p)
  from Cons.prems consider "s = a # p" | "suffix s p" by (auto simp: suffix_Cons)
  then show ?case
  proof cases
    case 1
    then show ?thesis by simp
  next
    case 2
    from Cons.IH[OF 2] chain_cost_Cons_ge[OF assms(1), of vs p a] show ?thesis by simp
  qed
qed

lemma root_path_agree:
  "root_path t k w = Some p \<Longrightarrow> \<forall>u\<in>set p. edges t' u = edges t u \<Longrightarrow>
   length (vertices t) \<le> length (vertices t') \<Longrightarrow> root_path t' k w = Some p"
proof (induction k arbitrary: w p)
  case 0
  then show ?case by (auto simp: GetRootID_def split: if_splits)
next
  case (Suc k)
  show ?case
  proof (cases "w = GetRootID t")
    case True
    with Suc.prems show ?thesis by (auto simp: GetRootID_def)
  next
    case False
    with Suc.prems obtain q p' where q: "edges t w = Some q" "q < length (vertices t)"
      "root_path t k q = Some p'" "p = w # p'"
      by (auto split: option.splits if_splits)
    from Suc.prems(2) q(4) have e: "edges t' w = Some q" "\<forall>u\<in>set p'. edges t' u = edges t u"
      using q(1) by auto
    from Suc.IH[OF q(3) e(2) Suc.prems(3)] e(1) q(2,4) False Suc.prems(3)
    show ?thesis by (simp add: GetRootID_def)
  qed
qed

lemma chain_cost_append:
  "set p \<subseteq> {..<length vs} \<Longrightarrow> chain_cost d (vs @ xs) p = chain_cost d vs p"
  by (induction d vs p rule: chain_cost.induct) (auto simp: nth_append)

lemma is_treeI:
  assumes "vertices t \<noteq> []" and "edges t (GetRootID t) = None"
    and "dom (edges t) \<subseteq> {..<length (vertices t)}"
    and "\<And>v. v < length (vertices t) \<Longrightarrow> \<exists>k p. root_path t k v = Some p"
  shows "is_tree t"
proof -
  have "root_path t (length (vertices t)) v \<noteq> None" if "v < length (vertices t)" for v
  proof -
    from assms(4)[OF that] obtain k p where "root_path t k v = Some p" by blast
    from root_path_bounded[OF this that] show ?thesis by simp
  qed
  with assms(1,2,3) show ?thesis by (simp add: is_tree_def list_all_iff)
qed

lemma is_treeD:
  assumes "is_tree t"
  shows "vertices t \<noteq> []" "edges t (GetRootID t) = None"
    "dom (edges t) \<subseteq> {..<length (vertices t)}"
    "v < length (vertices t) \<Longrightarrow> \<exists>p. root_path t (length (vertices t)) v = Some p"
  using assms by (auto simp: is_tree_def list_all_iff)

lemma is_tree_insert:
  assumes t: "is_tree t" and m: "m < length (vertices t)"
  shows "is_tree (AddEdge (fst (AddVertex t x c)) m (length (vertices t)))"
proof (rule is_treeI)
  let ?n = "length (vertices t)"
  let ?t' = "AddEdge (fst (AddVertex t x c)) m ?n"
  have vs: "vertices ?t' = vertices t @ [x]" and es: "edges ?t' = (edges t)(?n \<mapsto> m)"
    by (simp_all add: AddEdge_def AddVertex_def)
  show "vertices ?t' \<noteq> []" by (simp add: vs)
  from is_treeD(1,2)[OF t] show "edges ?t' (GetRootID ?t') = None"
    by (simp add: es GetRootID_def)
  from is_treeD(3)[OF t] show "dom (edges ?t') \<subseteq> {..<length (vertices ?t')}"
    by (auto simp: es vs)
  fix v assume v: "v < length (vertices ?t')"
  have old: "\<exists>p. root_path ?t' ?n u = Some p" if u: "u < ?n" for u
  proof -
    from is_treeD(4)[OF t u] obtain p where p: "root_path t ?n u = Some p" by blast
    from root_path_set[OF p u] have "\<forall>w\<in>set p. edges ?t' w = edges t w"
      by (auto simp: es)
    from root_path_agree[OF p this] show ?thesis by (simp add: vs)
  qed
  show "\<exists>k p. root_path ?t' k v = Some p"
  proof (cases "v < ?n")
    case True
    from old[OF this] show ?thesis by blast
  next
    case False
    with v have vn: "v = ?n" by (simp add: vs)
    from old[OF m] obtain p where p: "root_path ?t' ?n m = Some p" by blast
    from is_treeD(1)[OF t] have "?n \<noteq> GetRootID ?t'" by (simp add: GetRootID_def)
    with p m have "root_path ?t' (Suc ?n) ?n = Some (?n # p)"
      by (simp add: es vs)
    with vn show ?thesis by blast
  qed
qed

lemma root_path_last: "root_path t k v = Some p \<Longrightarrow> GetRootID t \<in> set p"
proof (induction k arbitrary: v p)
  case 0
  then show ?case by (auto split: if_splits)
next
  case (Suc k)
  show ?case
  proof (cases "v = GetRootID t")
    case True
    with Suc.prems show ?thesis by auto
  next
    case False
    with Suc.prems obtain q p' where q: "edges t v = Some q" "q < length (vertices t)"
      "root_path t k q = Some p'" "p = v # p'"
      by (auto split: option.splits if_splits)
    from Suc.IH[OF q(3)] q(4) show ?thesis by simp
  qed
qed

lemma root_path_redirect:
  assumes pb: "root_path t' kb b = Some pb"
    and es: "edges t' = (edges t)(v \<mapsto> b)" and vs: "vertices t' = vertices t"
    and b: "b < length (vertices t)" and v: "v \<noteq> GetRootID t"
  shows "root_path t k u = Some p \<Longrightarrow> \<exists>k' p'. root_path t' k' u = Some p'"
proof (induction k arbitrary: u p)
  case 0
  then have "root_path t' 0 u = Some [u]" by (auto simp: GetRootID_def split: if_splits)
  then show ?case by blast
next
  case (Suc k)
  show ?case
  proof (cases "u = GetRootID t")
    case True
    then have "root_path t' 0 u = Some [u]" by (auto simp: GetRootID_def)
    then show ?thesis by blast
  next
    case False
    with Suc.prems obtain q p'' where q: "edges t u = Some q" "q < length (vertices t)"
      "root_path t k q = Some p''"
      by (auto split: option.splits if_splits)
    show ?thesis
    proof (cases "u = v")
      case True
      with pb b v have "root_path t' (Suc kb) u = Some (u # pb)"
        by (simp add: es vs GetRootID_def)
      then show ?thesis by blast
    next
      case uv: False
      from Suc.IH[OF q(3)] obtain k' p' where "root_path t' k' q = Some p'" by blast
      with q(1,2) uv False have "root_path t' (Suc k') u = Some (u # p')"
        by (simp add: es vs GetRootID_def)
      then show ?thesis by blast
    qed
  qed
qed

lemma rewire_step_tree:
  assumes t: "is_tree (tree P)" and nonneg: "\<forall>a b. 0 \<le> compute_distance (env P) a b"
    and b: "b < length (vertices (tree P))" and v: "v < length (vertices (tree P))"
    and cb: "compute_cost P b = Some (Inr c_new)"
    and cv: "compute_cost P v = Some (Inr c_near)"
    and lt: "c_new + \<delta> < c_near" and \<delta>: "0 \<le> \<delta>"
  shows "is_tree (AddEdge (tree P) b v)"
    and "compute_cost (P\<lparr>tree := AddEdge (tree P) b v\<rparr>) b = Some (Inr c_new)"
    and "compute_cost (P\<lparr>tree := AddEdge (tree P) b v\<rparr>) v =
           Some (Inr (compute_distance (env P) (vertices (tree P) ! v) (vertices (tree P) ! b)
                      + c_new))"
    and "edges (tree P) b \<noteq> Some v"
proof -
  let ?t = "tree P" let ?n = "length (vertices (tree P))"
  let ?d = "compute_distance (env P)"
  let ?t' = "AddEdge ?t b v"
  let ?P' = "P\<lparr>tree := ?t'\<rparr>"
  have vs': "vertices ?t' = vertices ?t" and es': "edges ?t' = (edges ?t)(v \<mapsto> b)"
    by (simp_all add: AddEdge_def)
  from is_treeD(4)[OF t b] obtain pb where pb: "root_path ?t ?n b = Some pb" by blast
  from is_treeD(4)[OF t v] obtain pv where pv: "root_path ?t ?n v = Some pv" by blast
  from compute_cost_root_path[OF b pb] cb have cnew: "c_new = chain_cost ?d (vertices ?t) pb"
    by simp
  from compute_cost_root_path[OF v pv] cv have cnear: "c_near = chain_cost ?d (vertices ?t) pv"
    by simp
  have notin: "v \<notin> set pb"
  proof
    assume "v \<in> set pb"
    from root_path_suffix[OF pb this] obtain j s where s: "root_path ?t j v = Some s" "suffix s pb"
      by blast
    from root_path_unique[OF s(1) pv] have "s = pv" .
    with chain_cost_suffix[OF nonneg s(2), of "vertices ?t"] have "c_near \<le> c_new"
      by (simp add: cnew cnear)
    with lt \<delta> show False by simp
  qed
  from root_path_last[OF pb] notin have vroot: "v \<noteq> GetRootID ?t" by auto
  from root_path_hd[OF pb] obtain rest where rest: "pb = b # rest" by blast
  with notin have vb: "v \<noteq> b" by auto
  show "edges ?t b \<noteq> Some v"
  proof
    assume e: "edges ?t b = Some v"
    with is_treeD(2)[OF t] have br: "b \<noteq> GetRootID ?t" by auto
    from b obtain m where m: "?n = Suc m" by (cases ?n) auto
    from pb[unfolded m] e br v obtain z where z: "root_path ?t m v = Some z" "pb = b # z"
      by (auto split: if_splits)
    from root_path_hd[OF z(1)] z(2) have "v \<in> set pb" by auto
    with notin show False ..
  qed
  have "\<forall>u\<in>set pb. edges ?t' u = edges ?t u" using notin by (auto simp: es')
  from root_path_agree[OF pb this] have pb': "root_path ?t' ?n b = Some pb" by (simp add: vs')
  with b vroot have pv': "root_path ?t' (Suc ?n) v = Some (v # pb)"
    by (simp add: es' vs' GetRootID_def)
  show "is_tree ?t'"
  proof (rule is_treeI)
    show "vertices ?t' \<noteq> []" using is_treeD(1)[OF t] by (simp add: vs')
    show "edges ?t' (GetRootID ?t') = None"
      using is_treeD(2)[OF t] vroot by (simp add: es' GetRootID_def)
    show "dom (edges ?t') \<subseteq> {..<length (vertices ?t')}"
      using is_treeD(3)[OF t] v by (auto simp: es' vs')
    fix u assume "u < length (vertices ?t')"
    then have u: "u < ?n" by (simp add: vs')
    from is_treeD(4)[OF t u] obtain p where "root_path ?t ?n u = Some p" by blast
    from root_path_redirect[OF pb' es' vs' b vroot this]
    show "\<exists>k p. root_path ?t' k u = Some p" .
  qed
  have b': "b < length (vertices (tree ?P'))" and v': "v < length (vertices (tree ?P'))"
    using b v by (simp_all add: vs')
  from compute_cost_root_path[OF b', of ?n pb] pb'
  show "compute_cost ?P' b = Some (Inr c_new)" by (simp add: cnew vs')
  from compute_cost_root_path[OF v', of "Suc ?n" "v # pb"] pv'
  show "compute_cost ?P' v = Some (Inr (?d (vertices ?t ! v) (vertices ?t ! b) + c_new))"
    by (simp add: cnew vs' rest)
qed

subsection \<open>No vertex is its own ancestor\<close>

lemma ancestor_root_path:
  "root_path t j v = Some p \<Longrightarrow> edges t (GetRootID t) = None \<Longrightarrow>
   ancestor t k v = (if k < length p then Some (p ! k) else None)"
proof (induction j arbitrary: v p k)
  case 0
  then show ?case by (cases k) (auto split: if_splits)
next
  case (Suc j)
  show ?case
  proof (cases "v = GetRootID t")
    case True
    with Suc.prems show ?thesis by (cases k) auto
  next
    case False
    with Suc.prems obtain q p' where q: "edges t v = Some q" "q < length (vertices t)"
      "root_path t j q = Some p'" "p = v # p'"
      by (auto split: option.splits if_splits)
    show ?thesis
    proof (cases k)
      case 0
      then show ?thesis by (simp add: q(4))
    next
      case (Suc k')
      with Suc.IH[OF q(3) Suc.prems(2), of k'] q(1,4) show ?thesis by simp
    qed
  qed
qed

lemma is_tree_no_self_ancestor:
  assumes "is_tree t"
  shows "no_self_ancestor t"
  unfolding no_self_ancestor_def
proof (intro allI impI)
  fix v k :: nat assume k: "0 < k"
  show "ancestor t k v \<noteq> Some v"
  proof (cases "v < length (vertices t)")
    case False
    with is_treeD(3)[OF assms] have "edges t v = None" by (auto simp: dom_def)
    with k show ?thesis by (cases k) auto
  next
    case True
    from is_treeD(4)[OF assms True] obtain p where p: "root_path t (length (vertices t)) v = Some p"
      by blast
    from root_path_hd[OF p] have hd: "p ! 0 = v" "0 < length p" by auto
    show ?thesis
    proof
      assume a: "ancestor t k v = Some v"
      with ancestor_root_path[OF p is_treeD(2)[OF assms], of k]
      have "k < length p" "p ! k = v" by (auto split: if_splits)
      with root_path_distinct[OF p] hd k show False
        by (auto simp: distinct_conv_nth)
    qed
  qed
qed

lemma grow_rule:
  assumes "grow P goal rad ids g = Some (r, P', g')" and "I ids P"
    and step: "\<And>Q b rest g1 r1 Q' g2. I (b # rest) Q \<Longrightarrow>
       iteration Q goal rad b g1 = Some (r1, Q', g2) \<Longrightarrow>
       (case r1 of Inl e \<Rightarrow> J (Inl e) Q' | Inr u \<Rightarrow> I rest Q')"
    and fin: "\<And>Q. I [] Q \<Longrightarrow> J (Inr False) Q"
    and stop: "\<And>Q rest r. I rest Q \<Longrightarrow> r \<noteq> Inr False \<Longrightarrow> J r Q"
  shows "J r P'"
  using assms(1,2)
proof (induction ids arbitrary: P g)
  case Nil
  then show ?case using fin by auto
next
  case (Cons b ids)
  from Cons.prems(1) obtain r1 Q g1 where it: "iteration P goal rad b g = Some (r1, Q, g1)"
    by (auto split: option.splits)
  note st = step[OF Cons.prems(2) it]
  show ?case
  proof (cases r1)
    case (Inl e)
    with Cons.prems(1) it have "r = Inl e" "P' = Q" by simp_all
    with st Inl show ?thesis by simp
  next
    case (Inr u)
    with st have Q: "I ids Q" by simp
    from Cons.prems(1) it Inr
    consider "P' = Q" "r \<noteq> Inr False" | "grow Q goal rad ids g1 = Some (r, P', g')"
      by (auto split: if_splits prod.splits)
    then show ?thesis
    proof cases
      case 1
      with stop[OF Q] show ?thesis by simp
    next
      case 2
      from Cons.IH[OF 2 Q] show ?thesis .
    qed
  qed
qed

subsection \<open>The iteration keeps the tree\<close>

lemma GetNNInRad_lt:
  "(j, x) \<in> set (GetNNInRad e t q rad) \<Longrightarrow> j < length (vertices t)"
  using enumerate_fst_lt[of "(j, x)" "vertices t"] by (simp add: GetNNInRad_def)

lemma rewire_tree:
  assumes rw: "rewire Q x_new b near = Some (r, Q')"
    and t: "is_tree (tree Q)" and nonneg: "\<forall>a c. 0 \<le> compute_distance (env Q) a c"
    and b: "b < length (vertices (tree Q))"
    and near: "\<forall>p\<in>set near. fst p < length (vertices (tree Q))"
  shows "is_tree (tree Q') \<and> env Q' = env Q \<and>
         length (vertices (tree Q')) = length (vertices (tree Q))"
proof (rule rewire_invariant[OF rw, where
      I = "\<lambda>R. is_tree (tree R) \<and> env R = env Q \<and>
                length (vertices (tree R)) = length (vertices (tree Q))"])
  show "is_tree (tree Q) \<and> env Q = env Q \<and>
        length (vertices (tree Q)) = length (vertices (tree Q))"
    using t by simp
next
  fix R i x c_new c_near
  assume R: "is_tree (tree R) \<and> env R = env Q \<and>
             length (vertices (tree R)) = length (vertices (tree Q))"
    and mem: "(i, x) \<in> set near"
    and cn: "compute_cost R b = Some (Inr c_new)" and cv: "compute_cost R i = Some (Inr c_near)"
    and lt: "c_new + compute_distance (env R) x x_new < c_near"
  from R nonneg have nn: "\<forall>a c. 0 \<le> compute_distance (env R) a c" by simp
  from R b have b': "b < length (vertices (tree R))" by simp
  from near mem R have i: "i < length (vertices (tree R))" by auto
  from nn have d: "0 \<le> compute_distance (env R) x x_new" by simp
  from rewire_step_tree(1)[OF _ nn b' i cn cv lt d] R
  show "is_tree (tree (R\<lparr>tree := AddEdge (tree R) b i\<rparr>)) \<and>
        env (R\<lparr>tree := AddEdge (tree R) b i\<rparr>) = env Q \<and>
        length (vertices (tree (R\<lparr>tree := AddEdge (tree R) b i\<rparr>))) =
          length (vertices (tree Q))"
    by (simp add: AddEdge_def)
qed

lemma insert_tree:
  assumes t: "is_tree (tree Q)"
    and sv: "sample_valid_edge Q goal g1 = Some (Inr (x_rand, i, x_nearest), g2)"
    and sel: "select_parent Q x_new (GetNNInRad (env Q) (tree Q) x_new rad) (i, x_nearest, c0) =
              Some (Inr (x_min_id, x_min, cost_min))"
  shows "x_min_id < length (vertices (tree Q))"
    and "is_tree (AddEdge (fst (AddVertex (tree Q) x_new c')) x_min_id (length (vertices (tree Q))))"
proof -
  from sample_valid_edge_result[OF sv is_treeD(1)[OF t] ] have i: "i < length (vertices (tree Q))"
    by auto
  from select_parent_acc[OF sel]
  have "(x_min_id, x_min, cost_min) = (i, x_nearest, c0) \<or>
        (x_min_id, x_min) \<in> set (GetNNInRad (env Q) (tree Q) x_new rad)" by blast
  with i GetNNInRad_lt show m: "x_min_id < length (vertices (tree Q))" by blast
  from is_tree_insert[OF t m] show
    "is_tree (AddEdge (fst (AddVertex (tree Q) x_new c')) x_min_id (length (vertices (tree Q))))" .
qed

lemma iteration_tree:
  assumes it: "iteration Q goal rad b g1 = Some (r1, Q', g2)"
    and t: "is_tree (tree Q)" and nonneg: "\<forall>a c. 0 \<le> compute_distance (env Q) a c"
    and b: "b = length (vertices (tree Q))"
  shows "is_tree (tree Q') \<and> env Q' = env Q \<and>
         (case r1 of Inl e \<Rightarrow> True | Inr u \<Rightarrow> length (vertices (tree Q')) = Suc b)"
  using it
proof (cases rule: iteration_cases)
  case (err e)
  with t show ?thesis by simp
next
  case (step x_rand i x_nearest x_new c x_min_id x_min cost_min)
  let ?near = "GetNNInRad (env Q) (tree Q) x_new rad"
  let ?c = "Some (compute_distance (env Q) x_min x_new)"
  let ?Q1 = "Q\<lparr>tree := AddEdge (fst (AddVertex (tree Q) x_new ?c)) x_min_id b\<rparr>"
  from insert_tree(2)[OF t step(1,4), of ?c] b have t1: "is_tree (tree ?Q1)" by simp
  have len1: "length (vertices (tree ?Q1)) = Suc b"
    by (simp add: b AddEdge_def AddVertex_def)
  have near1: "\<forall>p\<in>set ?near. fst p < length (vertices (tree ?Q1))"
    using GetNNInRad_lt[of _ _ "env Q" "tree Q" x_new rad] b len1 by fastforce
  from rewire_tree[OF step(5) t1 _ _ near1] nonneg len1
  show ?thesis by (cases r1) simp_all
qed

lemma euclidean_nonneg: "0 \<le> euclidean a b"
  unfolding euclidean_def
  by (rule real_sqrt_ge_zero, rule sum_list_nonneg) auto


subsection \<open>The parent edges form a tree throughout a run\<close>

lemma is_tree_seed: "is_tree (fst (AddVertex RRTTree start None))"
  by (simp add: is_tree_def AddVertex_def RRTTree_def GetRootID_def)

lemma upt_eq_Cons: "b # rest = [n..<k] \<Longrightarrow> b = n \<and> rest = [Suc n..<k] \<and> Suc n \<le> k"
  by (cases "n < k") (auto simp: upt_conv_Cons)

lemma grow_tree:
  assumes nonneg: "\<forall>a c. 0 \<le> compute_distance (env P) a c"
    and t: "is_tree (tree P)" and len: "length (vertices (tree P)) \<le> k"
    and run: "grow P goal rad [length (vertices (tree P))..<k] g = Some (r, Q, g1)"
  shows "is_tree (tree Q) \<and> env Q = env P \<and> (r = Inr False \<longrightarrow> length (vertices (tree Q)) = k)"
proof (rule grow_rule[OF run, where
      I = "\<lambda>ids R. is_tree (tree R) \<and> env R = env P \<and>
              ids = [length (vertices (tree R))..<k] \<and> length (vertices (tree R)) \<le> k"
      and J = "\<lambda>r R. is_tree (tree R) \<and> env R = env P \<and>
              (r = Inr False \<longrightarrow> length (vertices (tree R)) = k)"])
  show "is_tree (tree P) \<and> env P = env P \<and>
        [length (vertices (tree P))..<k] = [length (vertices (tree P))..<k] \<and>
        length (vertices (tree P)) \<le> k"
    using t len by simp
next
  fix R b rest g2 r1 R' g3
  assume I: "is_tree (tree R) \<and> env R = env P \<and>
             b # rest = [length (vertices (tree R))..<k] \<and> length (vertices (tree R)) \<le> k"
    and it: "iteration R goal rad b g2 = Some (r1, R', g3)"
  from I upt_eq_Cons have b: "b = length (vertices (tree R))"
    and rest: "rest = [Suc b..<k]" "Suc b \<le> k" by blast+
  from I nonneg have nn: "\<forall>a c. 0 \<le> compute_distance (env R) a c" by simp
  from iteration_tree[OF it _ nn b] I rest
  show "case r1 of
          Inl e \<Rightarrow> is_tree (tree R') \<and> env R' = env P \<and>
                   (Inl e = Inr False \<longrightarrow> length (vertices (tree R')) = k)
        | Inr u \<Rightarrow> is_tree (tree R') \<and> env R' = env P \<and>
                   rest = [length (vertices (tree R'))..<k] \<and> length (vertices (tree R')) \<le> k"
    by (cases r1) simp_all
next
  fix R
  assume "is_tree (tree R) \<and> env R = env P \<and>
          [] = [length (vertices (tree R))..<k] \<and> length (vertices (tree R)) \<le> k"
  then show "is_tree (tree R) \<and> env R = env P \<and>
             (Inr False = (Inr False :: error + bool) \<longrightarrow> length (vertices (tree R)) = k)"
    using upt_eq_Nil_conv[of "length (vertices (tree R))" k] by auto
next
  fix R rest and r :: "error + bool"
  assume "is_tree (tree R) \<and> env R = env P \<and>
          rest = [length (vertices (tree R))..<k] \<and> length (vertices (tree R)) \<le> k"
     and "r \<noteq> Inr False"
  then show "is_tree (tree R) \<and> env R = env P \<and>
             (r = Inr False \<longrightarrow> length (vertices (tree R)) = k)"
    by simp
qed


text \<open>
  Claim C1, as amended. The first run of \<open>Plan\<close> on a newly constructed planner, whose
  tree is still empty, over a distance that is never negative. Let \<open>Q\<close> be the planner
  after the root insertion and the iterations with the branch ids below \<open>branch_id\<close>
  (for \<open>branch_id = 1\<close>, right after the root insertion). The parent edges of \<open>Q\<close> form
  a tree rooted at the root, and no vertex is its own ancestor. When these iterations
  have run to their end without an exception or an early stop, the same holds in the
  next iteration after the new vertex and its parent edge have been inserted, and
  after every number \<open>j\<close> of steps of the rewiring loop.
\<close>

theorem parent_edges_form_tree:
  assumes nonneg: "\<forall>a c. 0 \<le> compute_distance (env P) a c"
    and fresh: "tree P = RRTTree" and pos: "0 < branch_id"
    and run: "grow (P\<lparr>tree := fst (AddVertex (tree P) start_config None)\<rparr>) goal_config rad
                [1..<branch_id] g = Some (r, Q, g1)"
  shows "is_tree (tree Q) \<and> no_self_ancestor (tree Q) \<and>
     (r = Inr False \<longrightarrow>
       (\<forall>x_rand i x_nearest g2 x_new c x_min_id x_min cost_min.
          sample_valid_edge Q goal_config g1 = Some (Inr (x_rand, i, x_nearest), g2) \<and>
          extend Q x_nearest x_rand = Inr x_new \<and>
          compute_cost Q i = Some (Inr c) \<and>
          select_parent Q x_new (GetNNInRad (env Q) (tree Q) x_new rad)
            (i, x_nearest, c + compute_distance (env Q) x_nearest x_new) =
            Some (Inr (x_min_id, x_min, cost_min)) \<longrightarrow>
          is_tree (AddEdge (fst (AddVertex (tree Q) x_new
                     (Some (compute_distance (env Q) x_min x_new)))) x_min_id branch_id) \<and>
          no_self_ancestor (AddEdge (fst (AddVertex (tree Q) x_new
                     (Some (compute_distance (env Q) x_min x_new)))) x_min_id branch_id) \<and>
          (\<forall>j r' Q'.
             rewire (Q\<lparr>tree := AddEdge (fst (AddVertex (tree Q) x_new
                       (Some (compute_distance (env Q) x_min x_new)))) x_min_id branch_id\<rparr>)
               x_new branch_id (take j (GetNNInRad (env Q) (tree Q) x_new rad)) = Some (r', Q')
             \<longrightarrow> is_tree (tree Q') \<and> no_self_ancestor (tree Q'))))"
proof -
  let ?S = "P\<lparr>tree := fst (AddVertex (tree P) start_config None)\<rparr>"
  have tS: "is_tree (tree ?S)" by (simp add: fresh is_tree_seed)
  have lenS: "length (vertices (tree ?S)) = 1"
    by (simp add: fresh AddVertex_def RRTTree_def)
  from run lenS have run': "grow ?S goal_config rad [length (vertices (tree ?S))..<branch_id] g =
      Some (r, Q, g1)" by simp
  from nonneg have nnS: "\<forall>a c. 0 \<le> compute_distance (env ?S) a c" by simp
  from pos lenS have "length (vertices (tree ?S)) \<le> branch_id" by simp
  from grow_tree[OF nnS tS this run']
  have Q: "is_tree (tree Q)" "env Q = env P" "r = Inr False \<longrightarrow> length (vertices (tree Q)) = branch_id"
    by simp_all
  from Q(2) nonneg have nnQ: "\<forall>a c. 0 \<le> compute_distance (env Q) a c" by simp
  have inner: "is_tree (AddEdge (fst (AddVertex (tree Q) x_new c')) x_min_id branch_id) \<and>
        (\<forall>j r' Q'. rewire (Q\<lparr>tree := AddEdge (fst (AddVertex (tree Q) x_new c')) x_min_id branch_id\<rparr>)
               x_new branch_id (take j (GetNNInRad (env Q) (tree Q) x_new rad)) = Some (r', Q')
             \<longrightarrow> is_tree (tree Q'))"
    if r: "r = Inr False"
      and sv: "sample_valid_edge Q goal_config g1 = Some (Inr (x_rand, i, x_nearest), g2)"
      and sel: "select_parent Q x_new (GetNNInRad (env Q) (tree Q) x_new rad) (i, x_nearest, c0) =
            Some (Inr (x_min_id, x_min, cost_min))"
    for x_rand i x_nearest g2 x_new c0 x_min_id x_min cost_min c'
  proof (intro conjI allI impI)
    let ?near = "GetNNInRad (env Q) (tree Q) x_new rad"
    let ?Q1 = "Q\<lparr>tree := AddEdge (fst (AddVertex (tree Q) x_new c')) x_min_id branch_id\<rparr>"
    from Q(3) r have len: "length (vertices (tree Q)) = branch_id" by simp
    from insert_tree(2)[OF Q(1) sv sel, of c'] len
    show t1: "is_tree (AddEdge (fst (AddVertex (tree Q) x_new c')) x_min_id branch_id)" by simp
    fix j r' Q'
    assume rw: "rewire ?Q1 x_new branch_id (take j ?near) = Some (r', Q')"
    have len1: "length (vertices (tree ?Q1)) = Suc branch_id"
      by (simp add: len AddEdge_def AddVertex_def)
    have near1: "\<forall>p\<in>set (take j ?near). fst p < length (vertices (tree ?Q1))"
    proof
      fix p assume "p \<in> set (take j ?near)"
      then have "p \<in> set ?near" by (rule in_set_takeD)
      with GetNNInRad_lt[of "fst p" "snd p" "env Q" "tree Q" x_new rad] len len1
      show "fst p < length (vertices (tree ?Q1))" by simp
    qed
    from t1 have t1': "is_tree (tree ?Q1)" by simp
    from nnQ have nn1: "\<forall>a c. 0 \<le> compute_distance (env ?Q1) a c" by simp
    from len1 have b1: "branch_id < length (vertices (tree ?Q1))" by simp
    from rewire_tree[OF rw t1' nn1 b1 near1] show "is_tree (tree Q')" by simp
  qed
  show ?thesis
  proof (intro conjI impI allI)
    show "is_tree (tree Q)" by (rule Q(1))
    show "no_self_ancestor (tree Q)" by (rule is_tree_no_self_ancestor[OF Q(1)])
  next
    fix x_rand i x_nearest g2 x_new c x_min_id x_min cost_min
    assume r: "r = Inr False"
      and h: "sample_valid_edge Q goal_config g1 = Some (Inr (x_rand, i, x_nearest), g2) \<and>
          extend Q x_nearest x_rand = Inr x_new \<and>
          compute_cost Q i = Some (Inr c) \<and>
          select_parent Q x_new (GetNNInRad (env Q) (tree Q) x_new rad)
            (i, x_nearest, c + compute_distance (env Q) x_nearest x_new) =
            Some (Inr (x_min_id, x_min, cost_min))"
    note i = inner[OF r conjunct1[OF h] conjunct2[OF conjunct2[OF conjunct2[OF h] ]],
        of "Some (compute_distance (env Q) x_min x_new)"]
    from i show "is_tree (AddEdge (fst (AddVertex (tree Q) x_new
                     (Some (compute_distance (env Q) x_min x_new)))) x_min_id branch_id)"
      by simp
    then show "no_self_ancestor (AddEdge (fst (AddVertex (tree Q) x_new
                     (Some (compute_distance (env Q) x_min x_new)))) x_min_id branch_id)"
      by (rule is_tree_no_self_ancestor)
    fix j r' Q'
    assume "rewire (Q\<lparr>tree := AddEdge (fst (AddVertex (tree Q) x_new
                       (Some (compute_distance (env Q) x_min x_new)))) x_min_id branch_id\<rparr>)
               x_new branch_id (take j (GetNNInRad (env Q) (tree Q) x_new rad)) = Some (r', Q')"
    with i have t': "is_tree (tree Q')" by blast
    then show "is_tree (tree Q')" .
    from t' show "no_self_ancestor (tree Q')" by (rule is_tree_no_self_ancestor)
  qed
qed

theorem parent_edges_form_tree_witness:
  "is_tree (tree first_iteration_planner) \<and> no_self_ancestor (tree first_iteration_planner) \<and>
   is_tree \<lparr>vertices = [ [0, 0], [4, 0], [4, 0] ], edges = [1 \<mapsto> 0, 2 \<mapsto> 1],
            time_cost = None, path_cost = None\<rparr> \<and>
   no_self_ancestor \<lparr>vertices = [ [0, 0], [4, 0], [4, 0] ], edges = [1 \<mapsto> 0, 2 \<mapsto> 1],
            time_cost = None, path_cost = None\<rparr>"
proof -
  let ?Q = first_iteration_planner
  have nonneg: "\<forall>a c. 0 \<le> compute_distance (env full_step_planner) a c"
    by (simp add: full_step_planner_def init_def RRTTree_init_def free_env_def euclidean_nonneg)
  have fresh: "tree full_step_planner = RRTTree" by (simp add: full_step_planner_def init_def RRTTree_init_def)
  have run: "grow (full_step_planner\<lparr>tree := fst (AddVertex (tree full_step_planner) [0, 0] None)\<rparr>)
               [4, 0] 10 [1..<2] (0::nat) = Some (Inr False, ?Q, 1)"
    by (simp add: model_defs full_step_planner_def first_iteration_planner_def)
  have sv: "sample_valid_edge ?Q [4, 0] 1 = Some (Inr ([4, 0], 1, [4, 0]), 2)"
    by (simp add: model_defs full_step_planner_def first_iteration_planner_def)
  have ex: "extend ?Q [4, 0] [4, 0] = Inr [4, 0]"
    by (simp add: model_defs atan2_def full_step_planner_def first_iteration_planner_def)
  have cc: "compute_cost ?Q 1 = Some (Inr 4)"
    by (simp add: model_defs full_step_planner_def first_iteration_planner_def)
  have sel: "select_parent ?Q [4, 0] (GetNNInRad (env ?Q) (tree ?Q) [4, 0] 10)
      (1, [4, 0], 4 + compute_distance (env ?Q) [4, 0] [4, 0]) = Some (Inr (1, [4, 0], 4))"
    by (simp add: model_defs full_step_planner_def first_iteration_planner_def)
  have ins: "AddEdge (fst (AddVertex (tree ?Q) [4, 0]
                     (Some (compute_distance (env ?Q) [4, 0] [4, 0])))) 1 2 =
      \<lparr>vertices = [ [0, 0], [4, 0], [4, 0] ], edges = [1 \<mapsto> 0, 2 \<mapsto> 1],
            time_cost = None, path_cost = None\<rparr>"
    by (simp add: AddEdge_def AddVertex_def first_iteration_planner_def)
  have pos: "0 < (2::nat)" by simp
  note th = parent_edges_form_tree[OF nonneg fresh pos run]
  from th have a: "is_tree (tree ?Q)" "no_self_ancestor (tree ?Q)" by simp_all
  note inner = th[THEN conjunct2, THEN conjunct2, rule_format, OF refl,
      OF conjI[OF sv conjI[OF ex conjI[OF cc sel] ]] ]
  from inner
  have "is_tree (AddEdge (fst (AddVertex (tree ?Q) [4, 0]
                     (Some (compute_distance (env ?Q) [4, 0] [4, 0])))) 1 2) \<and>
        no_self_ancestor (AddEdge (fst (AddVertex (tree ?Q) [4, 0]
                     (Some (compute_distance (env ?Q) [4, 0] [4, 0])))) 1 2)"
    by simp
  with a show ?thesis by (simp only: ins) 
qed

text \<open>
  Claim C1 as stated fails on a planner that is used again. After the first call the
  tree has the root \<open>(0, 0)\<close> and the vertex 1 at \<open>(4, 0)\<close>. A second call from \<open>(100, 0)\<close>
  appends the new start configuration as vertex 2 without a parent, so the parent
  edges no longer form a tree. In its first iteration the nearest vertex and chosen
  parent is vertex 1; the new vertex gets the id 3, but the parent edge is stored for
  the branch id 1: vertex 1 becomes its own parent, and the cost walk of the rewiring
  loop never ends.
\<close>

theorem reused_planner_counterexample:
  "Plan full_step_planner 0 1 [0, 0] [4, 0] 10 (0::nat) =
     Some (Inr [ [0, 0], [4, 0] ], after_first_run, 1) \<and>
   grow (after_first_run\<lparr>tree := fst (AddVertex (tree after_first_run) [100, 0] None)\<rparr>)
     [4, 0] 10 [1..<1] 1 = Some (Inr False, reused_planner, 1) \<and>
   \<not> is_tree (tree reused_planner) \<and>
   sample_valid_edge reused_planner [4, 0] 1 = Some (Inr ([4, 0], 1, [4, 0]), 2) \<and>
   extend reused_planner [4, 0] [4, 0] = Inr [4, 0] \<and>
   compute_cost reused_planner 1 = Some (Inr 4) \<and>
   select_parent reused_planner [4, 0]
     (GetNNInRad (env reused_planner) (tree reused_planner) [4, 0] 10)
     (1, [4, 0], 4 + compute_distance (env reused_planner) [4, 0] [4, 0]) =
     Some (Inr (1, [4, 0], 4)) \<and>
   \<not> no_self_ancestor
       (AddEdge (fst (AddVertex (tree reused_planner) [4, 0]
          (Some (compute_distance (env reused_planner) [4, 0] [4, 0])))) 1 1) \<and>
   iteration reused_planner [4, 0] 10 1 1 = None"
proof (intro conjI)
  show "Plan full_step_planner 0 1 [0, 0] [4, 0] 10 (0::nat) =
     Some (Inr [ [0, 0], [4, 0] ], after_first_run, 1)" by (rule first_run)
  show "grow (after_first_run\<lparr>tree := fst (AddVertex (tree after_first_run) [100, 0] None)\<rparr>)
     [4, 0] 10 [1..<1] 1 = Some (Inr False, reused_planner, 1)"
    by (simp add: reused_planner_def)
  show "\<not> is_tree (tree reused_planner)"
    by (simp add: is_tree_def reused_planner_def after_first_run_def AddVertex_def GetRootID_def
        upt_rec numeral_eq_Suc)
  show sv: "sample_valid_edge reused_planner [4, 0] 1 = Some (Inr ([4, 0], 1, [4, 0]), 2)"
    by (simp add: model_defs reused_planner_def after_first_run_def)
  show ex: "extend reused_planner [4, 0] [4, 0] = Inr [4, 0]"
    by (simp add: model_defs atan2_def reused_planner_def after_first_run_def)
  show cc: "compute_cost reused_planner 1 = Some (Inr 4)"
    by (simp add: model_defs reused_planner_def after_first_run_def)
  show sel: "select_parent reused_planner [4, 0]
     (GetNNInRad (env reused_planner) (tree reused_planner) [4, 0] 10)
     (1, [4, 0], 4 + compute_distance (env reused_planner) [4, 0] [4, 0]) =
     Some (Inr (1, [4, 0], 4))"
    by (simp add: model_defs reused_planner_def after_first_run_def)
  have "ancestor (AddEdge (fst (AddVertex (tree reused_planner) [4, 0]
          (Some (compute_distance (env reused_planner) [4, 0] [4, 0])))) 1 1) (Suc 0) 1 = Some 1"
    by (simp add: AddEdge_def AddVertex_def)
  then show "\<not> no_self_ancestor
       (AddEdge (fst (AddVertex (tree reused_planner) [4, 0]
          (Some (compute_distance (env reused_planner) [4, 0] [4, 0])))) 1 1)"
    unfolding no_self_ancestor_def by (metis zero_less_Suc)
  let ?Q1 = "reused_planner\<lparr>tree := AddEdge (fst (AddVertex (tree reused_planner) [4, 0]
          (Some (compute_distance (env reused_planner) [4, 0] [4, 0])))) 1 1\<rparr>"
  have "cost_walk ?Q1 0 1 node c = None" for node c
    by (rule cost_walk_closed_set[where S = "{1}"]) (simp_all add: AddEdge_def AddVertex_def
        reused_planner_def after_first_run_def)
  then have loop: "compute_cost ?Q1 1 = None"
    by (simp add: compute_cost_def GetRootID_def AddEdge_def AddVertex_def
        reused_planner_def after_first_run_def)
  have near: "GetNNInRad (env reused_planner) (tree reused_planner) [4, 0] 10 =
      [(0, [0, 0]), (1, [4, 0])]"
    by (simp add: model_defs reused_planner_def after_first_run_def)
  have valid: "edge_validity_checker (env ?Q1) [4, 0] [0, 0]"
    by (simp add: reused_planner_def after_first_run_def free_env_def)
  have "rewire ?Q1 [4, 0] 1 [(0, [0, 0]), (1, [4, 0])] = None"
    using loop valid by simp
  then have "rewire ?Q1 [4, 0] 1
      (GetNNInRad (env reused_planner) (tree reused_planner) [4, 0] 10) = None"
    by (simp only: near)
  then show "iteration reused_planner [4, 0] 10 1 1 = None"
    unfolding iteration_def
    by (simp only: sv ex cc sel option.case sum.case prod.case)
qed

subsection \<open>Rewiring\<close>


lemma np_round_minus_one [simp]: "np_round (- 1) = - 1"
  using np_round_of_int[of "- 1"] by simp
















end
